theory Spec2Isabelle
  imports Main "HOL-Library.Word"
begin

section \<open>Strings and the two regular expressions\<close>

text \<open>
  A JavaScript string is a sequence of UTF-16 code units. The model uses \<open>string\<close>; a
  \<open>char\<close> stands for a code unit below 256. Code units from 256 on are not part of the
  model: none of them is a word character, and some of them are white space that \<open>trim\<close>
  removes (U+2028 or U+FEFF, for one), so the model of \<open>trim\<close> is exact for strings of
  code units below 256 only.

  \<open>\w\<close> in a regular expression without the \<open>u\<close> and \<open>i\<close> flags is \<open>[A-Za-z0-9_]\<close>.
\<close>

definition isWordChar :: "char \<Rightarrow> bool" where
  "isWordChar c =
     (let n = (of_char c :: nat)
      in (48 \<le> n \<and> n \<le> 57) \<or> (65 \<le> n \<and> n \<le> 90) \<or> n = 95 \<or> (97 \<le> n \<and> n \<le> 122))"

text \<open>\<open>KEY_REGEX = /^\w+$/\<close> and its \<open>test\<close> method. Without the \<open>m\<close> flag \<open>$\<close> matches at
  the end of the input only, and without the \<open>g\<close> flag \<open>test\<close> keeps no position.\<close>

definition KEY_REGEX_test :: "string \<Rightarrow> bool" where
  "KEY_REGEX_test key = (key \<noteq> [] \<and> list_all isWordChar key)"

text \<open>White space removed by \<open>String.prototype.trim\<close>, among the code units below 256:
  TAB, LF, VT, FF, CR, SP and NBSP.\<close>

definition isWhiteSpace :: "char \<Rightarrow> bool" where
  "isWhiteSpace c =
     (let n = (of_char c :: nat) in (9 \<le> n \<and> n \<le> 13) \<or> n = 32 \<or> n = 160)"

definition trim :: "string \<Rightarrow> string" where
  "trim s = rev (dropWhile isWhiteSpace (rev (dropWhile isWhiteSpace s)))"

text \<open>
  \<open>REFERENCE_REGEX = /@(\w+)/g\<close> under \<open>prompt.matchAll\<close>, mapped to capture group 1.
  The scan goes from left to right. At an \<open>@\<close> followed by at least one word character
  the match takes the whole run of word characters (\<open>+\<close> is greedy and nothing follows
  it in the pattern), and the scan resumes behind the match; anywhere else it moves on by
  one code unit. \<open>matchAll\<close> works on a copy of the expression, so the shared constant
  keeps \<open>lastIndex = 0\<close>.
\<close>

function matchAll :: "string \<Rightarrow> string list" where
  "matchAll [] = []"
| "matchAll (c # cs) =
     (if c = CHR ''@'' \<and> takeWhile isWordChar cs \<noteq> []
      then takeWhile isWordChar cs # matchAll (dropWhile isWordChar cs)
      else matchAll cs)"
  by pat_completeness auto
termination
  by (relation "measure length") (auto simp: length_dropWhile_le less_Suc_eq_le)

section \<open>Insertion-ordered collections\<close>

text \<open>
  A JavaScript \<open>Set\<close> enumerates its elements in insertion order and ignores the
  insertion of an element it already holds. It is a list without repetitions here.
\<close>

definition set_add :: "'a \<Rightarrow> 'a list \<Rightarrow> 'a list" where
  "set_add x s = (if x \<in> set s then s else s @ [x])"

definition new_Set :: "'a list \<Rightarrow> 'a list" where
  "new_Set xs = fold set_add xs []"

text \<open>
  A JavaScript \<open>Map\<close> enumerates its entries in insertion order: \<open>set\<close> on a key that is
  present replaces the value in place, \<open>set\<close> on a new key appends the entry, \<open>delete\<close>
  removes it. It is an association list here.
\<close>

record stored_image =
  data :: string
  mimeType :: string

type_synonym store = "(string \<times> stored_image) list"

definition map_has :: "store \<Rightarrow> string \<Rightarrow> bool" where
  "map_has m k = (map_of m k \<noteq> None)"

definition map_get :: "store \<Rightarrow> string \<Rightarrow> stored_image option" where
  "map_get m k = map_of m k"

definition map_set :: "string \<Rightarrow> stored_image \<Rightarrow> store \<Rightarrow> store" where
  "map_set k v m =
     (if map_has m k then map (\<lambda>e. if fst e = k then (k, v) else e) m else m @ [(k, v)])"

definition map_delete :: "string \<Rightarrow> store \<Rightarrow> store" where
  "map_delete k m = filter (\<lambda>e. fst e \<noteq> k) m"

section \<open>Application state\<close>

text \<open>The staged image: \<open>data\<close> and \<open>mimeType\<close> as in a stored image, and the two optional
  fields written by the mask editor. The \<open>file\<close> field is never read by the modelled code.\<close>

record staged_image = stored_image +
  maskData :: "string option"
  maskPreviewData :: "string option"

datatype sender = User | Ai

record message =
  msg_sender :: sender
  msg_text :: string
  msg_images :: "string list"

datatype modal_source = Upload | Generated

datatype part = TextPart string | InlinePart (part_data: "string option") (part_mimeType: string)

record app_state =
  references :: store
  stagedImage :: "staged_image option"
  imageToSave :: "stored_image option"
  saveModalSource :: "modal_source option"
  keyErrorMessage :: string
  chatHistory :: "message list"
  apiCalls :: "part list list"

text \<open>\<open>addMessage\<close> appends one message to the chat; the DOM nodes it builds are not modelled.\<close>

definition addMessage :: "sender \<Rightarrow> string \<Rightarrow> string list \<Rightarrow> app_state \<Rightarrow> app_state" where
  "addMessage who txt imageDataUrls s =
     s\<lparr>chatHistory := chatHistory s @
          [\<lparr>msg_sender = who, msg_text = txt, msg_images = imageDataUrls\<rparr>]\<rparr>"

section \<open>The reference store: save and rename\<close>

definition closeSaveKeyModal :: "app_state \<Rightarrow> app_state" where
  "closeSaveKeyModal s = s\<lparr>imageToSave := None, saveModalSource := None\<rparr>"

datatype save_outcome = NothingToSave | UsedOnce | KeyRequired | InvalidKey | KeyTaken | Saved

text \<open>\<open>handleSaveKey\<close>, with the content of the key input field as argument. The outcome
  names the branch taken; the source reports a failure through \<open>keyErrorMessage\<close>.\<close>

definition handleSaveKey :: "string \<Rightarrow> app_state \<Rightarrow> save_outcome \<times> app_state" where
  "handleSaveKey inputValue s =
     (case imageToSave s of
        None \<Rightarrow> (NothingToSave, s)
      | Some img \<Rightarrow>
          let key = trim inputValue;
              s1 = s\<lparr>keyErrorMessage := []\<rparr>
          in if key = [] then
               (if saveModalSource s1 = Some Upload then (UsedOnce, closeSaveKeyModal s1)
                else (KeyRequired,
                      s1\<lparr>keyErrorMessage := ''A key is required to save a reference.''\<rparr>))
             else if \<not> KEY_REGEX_test key then
               (InvalidKey,
                s1\<lparr>keyErrorMessage := ''Invalid key. Use only letters, numbers, and underscores.''\<rparr>)
             else if map_has (references s1) key then
               (KeyTaken,
                s1\<lparr>keyErrorMessage := ''This key is already in use. Please choose another.''\<rparr>)
             else
               (Saved,
                closeSaveKeyModal
                  (addMessage Ai
                     (''Image saved as reference with key: '' @ [CHR 0x22] @ ''<strong>'' @ key
                        @ ''</strong>'' @ [CHR 0x22] @ ''.'') []
                     (s1\<lparr>references :=
                           map_set key \<lparr>data = data img, mimeType = mimeType img\<rparr>
                             (references s1)\<rparr>))))"

datatype js_error = NonNullViolated | TypeError | IndexSizeError

datatype rename_outcome = SameKey | Rejected | Renamed

text \<open>
  \<open>handleRename\<close> of the list item created for \<open>oldKey\<close>, with the content of its input
  field as argument. The source reads \<open>references.get(oldKey)!\<close>: where \<open>oldKey\<close> is not in
  the map the non-null assertion is wrong and the map would receive \<open>undefined\<close>, a value
  outside the map's declared type; that run is the error \<open>NonNullViolated\<close> here.
\<close>

definition handleRename ::
  "string \<Rightarrow> string \<Rightarrow> app_state \<Rightarrow> js_error + (rename_outcome \<times> app_state)" where
  "handleRename oldKey inputValue s =
     (let newKey = trim inputValue
      in if newKey = oldKey then Inr (SameKey, s)
         else if \<not> KEY_REGEX_test newKey \<or> (map_has (references s) newKey \<and> newKey \<noteq> oldKey)
         then Inr (Rejected, s)
         else (case map_get (references s) oldKey of
                 None \<Rightarrow> Inl NonNullViolated
               | Some refData \<Rightarrow>
                   Inr (Renamed,
                        s\<lparr>references := map_set newKey refData (map_delete oldKey (references s))\<rparr>)))"

text \<open>The delete button of a list item, once the user has confirmed.\<close>

definition handleDelete :: "string \<Rightarrow> app_state \<Rightarrow> app_state" where
  "handleDelete key s = s\<lparr>references := map_delete key (references s)\<rparr>"

text \<open>
  The two places that enumerate the store, \<open>references.entries()\<close> in insertion order:
  the references dialog and the reference picker. An item is the key with the data URL of
  its image; the dialog shows a message in place of the items when the store is empty.
  The picker keeps the entries whose key, in lower case, includes the filter in lower
  case.

  \<open>toLowerCase\<close> on code units below 256: the letters \<open>A\<close> to \<open>Z\<close>, and the capitals from
  U+00C0 to U+00DE other than the multiplication sign U+00D7, move up by 32. \<open>includes_str\<close>
  (the method \<open>includes\<close>) tells whether the second string occurs in the first as a contiguous run.
\<close>

definition toLowerCaseChar :: "char \<Rightarrow> char" where
  "toLowerCaseChar c =
     (let n = (of_char c :: nat)
      in if (65 \<le> n \<and> n \<le> 90) \<or> (192 \<le> n \<and> n \<le> 222 \<and> n \<noteq> 215)
         then char_of (n + 32) else c)"

definition toLowerCase :: "string \<Rightarrow> string" where
  "toLowerCase s = map toLowerCaseChar s"

fun startsWith :: "string \<Rightarrow> string \<Rightarrow> bool" where
  "startsWith s [] = True"
| "startsWith [] (c # cs) = False"
| "startsWith (x # xs) (c # cs) = (x = c \<and> startsWith xs cs)"

fun includes_str :: "string \<Rightarrow> string \<Rightarrow> bool" where
  "includes_str [] t = (t = [])"
| "includes_str (x # xs) t = (startsWith (x # xs) t \<or> includes_str xs t)"

datatype references_list = NoReferencesMessage | ReferenceItems "(string \<times> string) list"

definition populateReferencesModal :: "store \<Rightarrow> references_list" where
  "populateReferencesModal refs =
     (if length refs = 0 then NoReferencesMessage
      else ReferenceItems (fold (\<lambda>e items. items @ [(fst e, data (snd e))]) refs []))"

definition populateReferencePicker :: "string \<Rightarrow> store \<Rightarrow> (string \<times> string) list" where
  "populateReferencePicker flt refs =
     (let lowerCaseFilter = toLowerCase flt
      in fold (\<lambda>e grid. if includes_str (toLowerCase (fst e)) lowerCaseFilter
                          then grid @ [(fst e, data (snd e))] else grid) refs [])"

text \<open>Every key of the store passes \<open>KEY_REGEX\<close> and occurs once.\<close>

definition wf_store :: "store \<Rightarrow> bool" where
  "wf_store m = (distinct (map fst m) \<and> list_all (\<lambda>e. KEY_REGEX_test (fst e)) m)"

section \<open>Resolving the references of a prompt\<close>

text \<open>
  \<open>parsePromptForReferences\<close> reads the global map; the model takes it as first argument.
  The result is the pair \<open>(referencedKeys, missingKeys)\<close>: the \<open>Set\<close> built from the
  matches, and the array the \<open>forEach\<close> loop pushes the absent keys to.
\<close>

definition parsePromptForReferences :: "store \<Rightarrow> string \<Rightarrow> string list \<times> string list" where
  "parsePromptForReferences refs prompt =
     (let referencedKeys = new_Set (matchAll prompt);
          missingKeys =
            fold (\<lambda>key missing. if \<not> map_has refs key then missing @ [key] else missing)
              referencedKeys []
      in (referencedKeys, missingKeys))"

text \<open>
  The same in the words of the specification, to compare with: a token is an \<open>@\<close> directly
  followed by the longest run of at least one word character; \<open>spec_tokens\<close> lists the
  keys of the tokens of a prompt from left to right, and \<open>spec_first_occurrences\<close> keeps
  the first occurrence of each.
\<close>

definition spec_token_at :: "string \<Rightarrow> nat \<Rightarrow> string" where
  "spec_token_at s i = takeWhile isWordChar (drop (Suc i) s)"

definition spec_tokens :: "string \<Rightarrow> string list" where
  "spec_tokens s =
     map (spec_token_at s)
       (filter (\<lambda>i. s ! i = CHR ''@'' \<and> spec_token_at s i \<noteq> []) [0..<length s])"

fun spec_first_occurrences :: "'a list \<Rightarrow> 'a list" where
  "spec_first_occurrences [] = []"
| "spec_first_occurrences (x # xs) = x # spec_first_occurrences (filter (\<lambda>y. y \<noteq> x) xs)"

section \<open>Assembling the request\<close>

text \<open>\<open>String.prototype.split\<close> with a one-character separator, and array indexing, which
  gives \<open>undefined\<close> (here \<open>None\<close>) beyond the end.\<close>

fun split_from :: "char \<Rightarrow> string \<Rightarrow> string \<Rightarrow> string list" where
  "split_from sep cur [] = [cur]"
| "split_from sep cur (c # cs) =
     (if c = sep then cur # split_from sep [] cs else split_from sep (cur @ [c]) cs)"

definition split :: "char \<Rightarrow> string \<Rightarrow> string list" where
  "split sep s = split_from sep [] s"

definition index :: "'a list \<Rightarrow> nat \<Rightarrow> 'a option" where
  "index xs i = (if i < length xs then Some (xs ! i) else None)"

text \<open>The \<open>forEach\<close> loop over \<open>referencedKeys\<close>. Reading \<open>ref.data\<close> of a key that is not
  in the map raises a \<open>TypeError\<close>.\<close>

fun push_references :: "store \<Rightarrow> string list \<Rightarrow> part list \<Rightarrow> js_error + part list" where
  "push_references refs [] parts = Inr parts"
| "push_references refs (key # keys) parts =
     (case map_get refs key of
        None \<Rightarrow> Inl TypeError
      | Some ref \<Rightarrow>
          push_references refs keys
            (parts @ [InlinePart (index (split CHR '','' (data ref)) 1) (mimeType ref)]))"

text \<open>\<open>buildApiParts\<close>. The parameter \<open>image\<close> of the source is \<open>img\<close> here. A string is
  truthy when it is not empty, so \<open>image.maskData\<close> counts as present when it is a
  non-empty string.\<close>

definition buildApiParts ::
  "store \<Rightarrow> string \<Rightarrow> staged_image option \<Rightarrow> string list \<Rightarrow> js_error + part list" where
  "buildApiParts refs prompt img referencedKeys =
     (let effectivePrompt =
            (if prompt \<noteq> [] then prompt
             else if img \<noteq> None then ''Describe this image.'' else []);
          parts0 = (if effectivePrompt \<noteq> [] then [TextPart effectivePrompt] else []);
          parts1 =
            (case img of
               None \<Rightarrow> parts0
             | Some im \<Rightarrow>
                 (if maskData im \<noteq> None \<and> maskData im \<noteq> Some [] then
                    parts0
                      @ [InlinePart (index (split CHR '','' (data im)) 1) (mimeType im)]
                      @ [InlinePart (index (split CHR '','' (the (maskData im))) 1) (mimeType im)]
                  else
                    parts0
                      @ [InlinePart (index (split CHR '','' (data im)) 1) (mimeType im)]))
      in push_references refs referencedKeys parts1)"

text \<open>
  For comparison, in the words of the specification. A stored string is a data URL,
  \<open>data:<mime>;base64,<payload>\<close>, as \<open>readAsDataURL\<close>, \<open>toDataURL\<close> and
  \<open>processApiResponse\<close> build it: its one comma is the separator between the prefix and
  the base64 payload. \<open>spec_payload\<close> strips the prefix: it gives what follows the
  separator. \<open>spec_sources\<close> lists the stored strings an image part is emitted for, each
  with its mime type: the staged image, its mask when it has one, and the references.
\<close>

definition spec_is_data_url :: "string \<Rightarrow> bool" where
  "spec_is_data_url d = (count_list d CHR '','' = 1)"

definition spec_payload :: "string \<Rightarrow> string option" where
  "spec_payload d =
     (case dropWhile (\<lambda>c. c \<noteq> CHR '','') d of [] \<Rightarrow> None | sep # rest \<Rightarrow> Some rest)"

definition spec_sources ::
  "store \<Rightarrow> staged_image option \<Rightarrow> string list \<Rightarrow> (string \<times> string) list" where
  "spec_sources refs img keys =
     (case img of
        None \<Rightarrow> []
      | Some im \<Rightarrow>
          (data im, mimeType im)
            # (case maskData im of
                 None \<Rightarrow> []
               | Some m \<Rightarrow> if m = [] then [] else [(m, mimeType im)]))
     @ concat (map (\<lambda>k. case map_get refs k of
                            None \<Rightarrow> []
                          | Some ref \<Rightarrow> [(data ref, mimeType ref)]) keys)"

fun is_image_part :: "part \<Rightarrow> bool" where
  "is_image_part (TextPart t) = False"
| "is_image_part (InlinePart d m) = True"

section \<open>Calling the model\<close>

fun join :: "string \<Rightarrow> string list \<Rightarrow> string" where
  "join sep [] = []"
| "join sep [x] = x"
| "join sep (x # y # ys) = x @ sep @ join sep (y # ys)"

text \<open>The loop of \<open>processApiResponse\<close> over the parts of the first candidate. A part with a
  non-empty text adds to the text; otherwise a part with inline data adds a data URL, where
  the template literal prints a missing \<open>data\<close> as \<open>undefined\<close>.\<close>

fun response_step :: "part \<Rightarrow> string \<times> string list \<Rightarrow> string \<times> string list" where
  "response_step (TextPart t) (responseText, urls) = (responseText @ t, urls)"
| "response_step (InlinePart d m) (responseText, urls) =
     (responseText,
      urls @ [''data:'' @ m @ '';base64,'' @ (case d of None \<Rightarrow> ''undefined'' | Some x \<Rightarrow> x)])"

definition processApiResponse :: "part list \<Rightarrow> app_state \<Rightarrow> app_state" where
  "processApiResponse response s =
     (let (responseText, responseImageDataUrls) = fold response_step response ([], []);
          fallbackText =
            (if length responseImageDataUrls > 0 then ''Here is the generated image.''
             else ''I couldn'' @ [CHR 0x27] @ ''t generate a response.'')
      in addMessage Ai (if responseText \<noteq> [] then responseText else fallbackText)
           responseImageDataUrls s)"

text \<open>
  The model behind \<open>ai.models.generateContent\<close> is outside the repository. It is the
  parameter \<open>generate\<close>: \<open>Inr\<close> the parts of the first candidate of the response, \<open>Inl\<close>
  whatever the \<open>try\<close> block of \<open>callGeminiApi\<close> catches, an \<open>Error\<close> with its message or any
  other thrown value. Each request handed to it is recorded in \<open>apiCalls\<close>. A
  \<open>TypeError\<close> of \<open>buildApiParts\<close> is raised outside that \<open>try\<close> block and leaves the
  function.
\<close>

datatype thrown = Error string | NonError

definition callGeminiApi ::
  "(part list \<Rightarrow> thrown + part list) \<Rightarrow> string \<Rightarrow> staged_image option \<Rightarrow> app_state
     \<Rightarrow> js_error + app_state" where
  "callGeminiApi generate prompt img s =
     (if prompt = [] \<and> img = None then
        Inr (addMessage Ai ''Please provide a prompt or an image.'' [] s)
      else
        let (referencedKeys, missingKeys) = parsePromptForReferences (references s) prompt
        in if length missingKeys > 0 then
             Inr (addMessage Ai
                    (''Error: The following reference keys were not found: ''
                       @ join '', '' missingKeys @ ''.'') [] s)
           else
             (case buildApiParts (references s) prompt img referencedKeys of
                Inl e \<Rightarrow> Inl e
              | Inr parts \<Rightarrow>
                  if length parts = 0 then Inr s
                  else
                    let s1 = s\<lparr>apiCalls := apiCalls s @ [parts]\<rparr>
                    in (case generate parts of
                          Inr response \<Rightarrow> Inr (processApiResponse response s1)
                        | Inl e \<Rightarrow>
                            Inr (addMessage Ai
                                   (''Sorry, an error occurred. ''
                                      @ (case e of Error message \<Rightarrow> message
                                         | NonError \<Rightarrow> ''Please try again.'')) [] s1))))"

section \<open>The mask editor\<close>

text \<open>
  An \<open>ImageData\<close>: its dimensions and its \<open>data\<close>, a \<open>Uint8ClampedArray\<close> of four bytes
  (red, green, blue, alpha) per pixel, row by row. Reading a typed array beyond its end
  gives \<open>undefined\<close> (here \<open>None\<close>); writing beyond its end does nothing.
\<close>

type_synonym byte = "8 word"

record image_data =
  width :: nat
  height :: nat
  data_bytes :: "byte list"

definition getByte :: "byte list \<Rightarrow> nat \<Rightarrow> byte option" where
  "getByte a i = (if i < length a then Some (a ! i) else None)"

definition putByte :: "byte list \<Rightarrow> nat \<Rightarrow> byte \<Rightarrow> byte list" where
  "putByte a i v = (if i < length a then a[i := v] else a)"

text \<open>
  The drawing surface is the bitmap of \<open>editorCanvas\<close>, held as an \<open>image_data\<close> too. The
  model stores the bytes as they are written: the loss a browser may add when it keeps
  translucent pixels with premultiplied alpha is outside the model.

  \<open>getImageData(0, 0, width, height)\<close> and \<open>createImageData(width, height)\<close> raise an
  \<open>IndexSizeError\<close> for an empty rectangle. \<open>putImageData(img, 0, 0)\<close> copies the pixels of
  \<open>img\<close> that fall on the surface and leaves the others.
\<close>

definition getImageData :: "image_data \<Rightarrow> js_error + image_data" where
  "getImageData c = (if width c = 0 \<or> height c = 0 then Inl IndexSizeError else Inr c)"

definition createImageData :: "nat \<Rightarrow> nat \<Rightarrow> js_error + image_data" where
  "createImageData w h =
     (if w = 0 \<or> h = 0 then Inl IndexSizeError
      else Inr \<lparr>width = w, height = h, data_bytes = replicate (4 * w * h) 0\<rparr>)"

definition putImageData :: "image_data \<Rightarrow> image_data \<Rightarrow> image_data" where
  "putImageData img c =
     c\<lparr>data_bytes :=
         map (\<lambda>j. let x = (j div 4) mod width c; y = (j div 4) div width c
                  in if x < width img \<and> y < height img
                     then data_bytes img ! (4 * (y * width img + x) + j mod 4)
                     else data_bytes c ! j)
           [0..<length (data_bytes c)]\<rparr>"

text \<open>
  The rasteriser of the 2D context is outside the repository. A handler that draws
  (\<open>stroke\<close>, \<open>fillRect\<close>, \<open>fill\<close>) takes the effect of its drawing calls as the argument
  \<open>paint\<close>, which gives each byte of the new bitmap from the old bitmap and the byte's
  position. The pointer position, the path, the styles and \<open>shapeStartX\<close>, \<open>shapeStartY\<close>
  only feed the rasteriser and are part of \<open>paint\<close>.
\<close>

type_synonym paint = "byte list \<Rightarrow> nat \<Rightarrow> byte"

definition apply_paint :: "paint \<Rightarrow> image_data \<Rightarrow> image_data" where
  "apply_paint p c = c\<lparr>data_bytes := map (p (data_bytes c)) [0..<length (data_bytes c)]\<rparr>"

datatype tool = Brush | Eraser | Rectangle | Circle | OtherTool

record editor =
  canvas :: image_data
  canvasHistory :: "image_data list"
  isDrawing :: bool
  currentTool :: tool

definition saveCanvasState :: "editor \<Rightarrow> js_error + editor" where
  "saveCanvasState ed =
     (case getImageData (canvas ed) of
        Inl e \<Rightarrow> Inl e
      | Inr d \<Rightarrow> Inr (ed\<lparr>canvasHistory := canvasHistory ed @ [d]\<rparr>))"

text \<open>\<open>openEditor\<close>, at the moment the image has loaded: \<open>decode\<close> gives the bitmap of a data
  URL at its natural size. Setting the size of the canvas resets the context, so
  \<open>drawImage\<close> leaves exactly that bitmap on the surface.\<close>

definition openEditor ::
  "staged_image option \<Rightarrow> (string \<Rightarrow> image_data) \<Rightarrow> editor \<Rightarrow> js_error + editor" where
  "openEditor staged decode ed =
     (case staged of
        None \<Rightarrow> Inr ed
      | Some im \<Rightarrow> saveCanvasState (ed\<lparr>canvas := decode (data im), canvasHistory := []\<rparr>))"

definition clearRect :: "image_data \<Rightarrow> image_data" where
  "clearRect c = c\<lparr>data_bytes := replicate (length (data_bytes c)) 0\<rparr>"

definition closeEditor :: "editor \<Rightarrow> editor" where
  "closeEditor ed = ed\<lparr>canvasHistory := [], canvas := clearRect (canvas ed)\<rparr>"

text \<open>\<open>handleUndo\<close>: \<open>pop\<close>, then \<open>putImageData\<close> of the entry that is now the last one.\<close>

definition handleUndo :: "editor \<Rightarrow> editor" where
  "handleUndo ed =
     (if length (canvasHistory ed) > 1 then
        let h = butlast (canvasHistory ed)
        in ed\<lparr>canvasHistory := h, canvas := putImageData (h ! (length h - 1)) (canvas ed)\<rparr>
      else ed)"

definition startDraw :: "editor \<Rightarrow> editor" where
  "startDraw ed = ed\<lparr>isDrawing := True\<rparr>"

text \<open>\<open>putImageData\<close> of the last snapshot, as \<open>draw\<close> and \<open>stopDraw\<close> do for a shape; with an
  empty history the argument is \<open>undefined\<close> and the call raises a \<open>TypeError\<close>.\<close>

definition restoreLast :: "editor \<Rightarrow> js_error + editor" where
  "restoreLast ed =
     (case index (canvasHistory ed) (length (canvasHistory ed) - 1) of
        None \<Rightarrow> Inl TypeError
      | Some snapshot \<Rightarrow> Inr (ed\<lparr>canvas := putImageData snapshot (canvas ed)\<rparr>))"

definition stopDraw :: "paint \<Rightarrow> editor \<Rightarrow> js_error + editor" where
  "stopDraw p ed =
     (if \<not> isDrawing ed then Inr ed
      else
        let ed1 = ed\<lparr>isDrawing := False\<rparr>
        in if currentTool ed1 = Rectangle \<or> currentTool ed1 = Circle then
             (case restoreLast ed1 of
                Inl e \<Rightarrow> Inl e
              | Inr ed2 \<Rightarrow> saveCanvasState (ed2\<lparr>canvas := apply_paint p (canvas ed2)\<rparr>))
           else saveCanvasState ed1)"

definition draw :: "paint \<Rightarrow> editor \<Rightarrow> js_error + editor" where
  "draw p ed =
     (if \<not> isDrawing ed then Inr ed
      else if currentTool ed = Brush then Inr (ed\<lparr>canvas := apply_paint p (canvas ed)\<rparr>)
      else if currentTool ed = Eraser then Inr (ed\<lparr>canvas := apply_paint p (canvas ed)\<rparr>)
      else if currentTool ed = Rectangle \<or> currentTool ed = Circle then
        (case restoreLast ed of
           Inl e \<Rightarrow> Inl e
         | Inr ed2 \<Rightarrow> Inr (ed2\<lparr>canvas := apply_paint p (canvas ed2)\<rparr>))
      else Inr ed)"

text \<open>The loop of \<open>saveMask\<close> over the bytes of the first snapshot, four at a time, and the
  value of its \<open>hasChanged\<close> at position \<open>i\<close>.\<close>

definition hasChanged :: "byte list \<Rightarrow> byte list \<Rightarrow> nat \<Rightarrow> bool" where
  "hasChanged originalPixels currentPixels i =
     (getByte originalPixels i \<noteq> getByte currentPixels i
      \<or> getByte originalPixels (i + 1) \<noteq> getByte currentPixels (i + 1)
      \<or> getByte originalPixels (i + 2) \<noteq> getByte currentPixels (i + 2)
      \<or> getByte originalPixels (i + 3) \<noteq> getByte currentPixels (i + 3))"

function maskLoop :: "byte list \<Rightarrow> byte list \<Rightarrow> byte list \<Rightarrow> nat \<Rightarrow> byte list" where
  "maskLoop originalPixels currentPixels maskPixels i =
     (if i < length originalPixels then
        maskLoop originalPixels currentPixels
          (if hasChanged originalPixels currentPixels i then
             putByte (putByte (putByte (putByte maskPixels i 255) (i + 1) 255) (i + 2) 255)
               (i + 3) 255
           else
             putByte (putByte (putByte (putByte maskPixels i 0) (i + 1) 0) (i + 2) 0)
               (i + 3) 255)
          (i + 4)
      else maskPixels)"
  by pat_completeness auto
termination
  by (relation "measure (\<lambda>(originalPixels, currentPixels, maskPixels, i).
        length originalPixels - i)") auto

declare maskLoop.simps [simp del]

text \<open>The mask bitmap that \<open>saveMask\<close> puts on \<open>maskCanvas\<close>: \<open>maskImageData\<close> after the loop.\<close>

definition maskImageData :: "editor \<Rightarrow> js_error + image_data" where
  "maskImageData ed =
     (let originalImageData = canvasHistory ed ! 0
      in case getImageData (canvas ed) of
           Inl e \<Rightarrow> Inl e
         | Inr currentImageData \<Rightarrow>
             (case createImageData (width (canvas ed)) (height (canvas ed)) of
                Inl e \<Rightarrow> Inl e
              | Inr blank \<Rightarrow>
                  Inr (blank\<lparr>data_bytes :=
                         maskLoop (data_bytes originalImageData) (data_bytes currentImageData)
                           (data_bytes blank) 0\<rparr>)))"

text \<open>\<open>saveMask\<close>. The encoder behind \<open>toDataURL\<close> is the parameter \<open>toDataURL\<close>, from a
  bitmap and a mime type to a data URL.\<close>

definition saveMask ::
  "(image_data \<Rightarrow> string \<Rightarrow> string) \<Rightarrow> app_state \<Rightarrow> editor
     \<Rightarrow> js_error + (app_state \<times> editor)" where
  "saveMask toDataURL s ed =
     (case stagedImage s of
        None \<Rightarrow> Inr (s, ed)
      | Some im \<Rightarrow>
          if length (canvasHistory ed) = 0 then Inr (s, ed)
          else
            (case maskImageData ed of
               Inl e \<Rightarrow> Inl e
             | Inr maskImage \<Rightarrow>
                 Inr (s\<lparr>stagedImage :=
                          Some (im\<lparr>maskData := Some (toDataURL maskImage (mimeType im)),
                                   maskPreviewData :=
                                     Some (toDataURL (canvas ed) (mimeType im))\<rparr>)\<rparr>,
                      closeEditor ed)))"

text \<open>For comparison, in the words of the specification: the four channels of pixel \<open>p\<close> of
  a buffer, opaque white and opaque black.\<close>

definition spec_pixel :: "byte list \<Rightarrow> nat \<Rightarrow> byte list" where
  "spec_pixel buf p = take 4 (drop (4 * p) buf)"

definition spec_white :: "byte list" where
  "spec_white = [255, 255, 255, 255]"

definition spec_black :: "byte list" where
  "spec_black = [0, 0, 0, 255]"

text \<open>The events of an editing session (\<open>MouseUp\<close> stands for \<open>mouseup\<close> and \<open>mouseout\<close>,
  which both run \<open>stopDraw\<close>), and the states a session reaches after \<open>openEditor\<close> has put
  a well-formed bitmap on the surface.\<close>

datatype event =
  MouseDown | MouseMove paint | MouseUp paint | UndoClick | SelectTool tool | SelectColor

fun step :: "event \<Rightarrow> editor \<Rightarrow> js_error + editor" where
  "step MouseDown ed = Inr (startDraw ed)"
| "step (MouseMove p) ed = draw p ed"
| "step (MouseUp p) ed = stopDraw p ed"
| "step UndoClick ed = Inr (handleUndo ed)"
| "step (SelectTool t) ed = Inr (ed\<lparr>currentTool := t\<rparr>)"
| "step SelectColor ed = Inr (ed\<lparr>currentTool := Brush\<rparr>)"

definition wf_image :: "image_data \<Rightarrow> bool" where
  "wf_image b = (0 < width b \<and> 0 < height b \<and> length (data_bytes b) = 4 * width b * height b)"

inductive reachable :: "image_data \<Rightarrow> editor \<Rightarrow> bool" where
  opened: "wf_image (decode (data im)) \<Longrightarrow> openEditor (Some im) decode ed0 = Inr ed
             \<Longrightarrow> reachable (decode (data im)) ed"
| stepped: "reachable bitmap ed \<Longrightarrow> step ev ed = Inr ed' \<Longrightarrow> reachable bitmap ed'"

text \<open>What holds throughout a session on \<open>bitmap\<close>: the history is not empty and starts
  with the bitmap, and the surface and every snapshot have the bitmap's size.\<close>

definition same_size :: "image_data \<Rightarrow> image_data \<Rightarrow> bool" where
  "same_size bitmap snap =
     (width snap = width bitmap \<and> height snap = height bitmap
      \<and> length (data_bytes snap) = 4 * width bitmap * height bitmap)"

definition session_inv :: "image_data \<Rightarrow> editor \<Rightarrow> bool" where
  "session_inv bitmap ed =
     (canvasHistory ed \<noteq> [] \<and> canvasHistory ed ! 0 = bitmap
      \<and> same_size bitmap (canvas ed) \<and> list_all (same_size bitmap) (canvasHistory ed))"

section \<open>Example states\<close>

definition img_a :: stored_image where
  "img_a = \<lparr>data = ''data:image/png;base64,AAAA'', mimeType = ''image/png''\<rparr>"

definition img_b :: stored_image where
  "img_b = \<lparr>data = ''data:image/jpeg;base64,BBBB'', mimeType = ''image/jpeg''\<rparr>"

definition state_a :: app_state where
  "state_a = \<lparr>references = [(''cat'', img_a)], stagedImage = None, imageToSave = Some img_b,
     saveModalSource = Some Generated, keyErrorMessage = [], chatHistory = [], apiCalls = []\<rparr>"

definition state_b :: app_state where
  "state_b = \<lparr>references = [(''A'', img_a), (''C'', img_b)], stagedImage = None,
     imageToSave = None, saveModalSource = None, keyErrorMessage = [], chatHistory = [],
     apiCalls = []\<rparr>"

definition state_c :: app_state where
  "state_c = \<lparr>references = [(''x'', img_a), (''y'', img_b), (''z'', img_a)], stagedImage = None,
     imageToSave = None, saveModalSource = None, keyErrorMessage = [], chatHistory = [],
     apiCalls = []\<rparr>"

definition staged_a :: staged_image where
  "staged_a = \<lparr>data = ''data:image/png;base64,SUBJ'', mimeType = ''image/png'',
     maskData = Some ''data:image/png;base64,MASK'', maskPreviewData = Some ''data:image/png;base64,PREV''\<rparr>"

definition store_xy :: store where
  "store_xy = [(''y'', img_b), (''x'', img_a)]"

definition pristine_2x1 :: image_data where
  "pristine_2x1 = \<lparr>width = 2, height = 1, data_bytes = [10, 20, 30, 255, 40, 50, 60, 255]\<rparr>"

definition drawn_2x1 :: image_data where
  "drawn_2x1 = \<lparr>width = 2, height = 1, data_bytes = [10, 20, 30, 255, 229, 57, 53, 255]\<rparr>"

definition editor_drawn :: editor where
  "editor_drawn = \<lparr>canvas = drawn_2x1, canvasHistory = [pristine_2x1, drawn_2x1],
     isDrawing = False, currentTool = Brush\<rparr>"

definition staged_plain :: staged_image where
  "staged_plain = \<lparr>data = ''data:image/png;base64,SUBJ'', mimeType = ''image/png'',
     maskData = None, maskPreviewData = None\<rparr>"

definition state_staged :: app_state where
  "state_staged = \<lparr>references = [], stagedImage = Some staged_plain, imageToSave = None,
     saveModalSource = None, keyErrorMessage = [], chatHistory = [], apiCalls = []\<rparr>"

definition editor_closed :: editor where
  "editor_closed = \<lparr>canvas = \<lparr>width = 0, height = 0, data_bytes = []\<rparr>, canvasHistory = [],
     isDrawing = False, currentTool = Brush\<rparr>"

definition paint_second :: paint where
  "paint_second buf j = (if 4 \<le> j then [229, 57, 53, 255] ! (j - 4) else buf ! j)"

definition editor_midstroke :: editor where
  "editor_midstroke = \<lparr>canvas = drawn_2x1, canvasHistory = [pristine_2x1],
     isDrawing = True, currentTool = Brush\<rparr>"


section \<open>Properties of the reference store\<close>

lemma word_not_space: "isWordChar c \<Longrightarrow> \<not> isWhiteSpace c"
  by (auto simp: isWordChar_def isWhiteSpace_def Let_def)

lemma dropWhile_space_word: "list_all isWordChar k \<Longrightarrow> dropWhile isWhiteSpace k = k"
  by (cases k) (auto simp: word_not_space)

lemma trim_key: "KEY_REGEX_test k \<Longrightarrow> trim k = k"
proof -
  assume v: "KEY_REGEX_test k"
  then have a: "list_all isWordChar k" by (simp add: KEY_REGEX_test_def)
  then have b: "list_all isWordChar (rev k)" by (simp add: list_all_iff)
  show ?thesis
    by (simp add: trim_def dropWhile_space_word [OF a] dropWhile_space_word [OF b])
qed

lemma map_has_iff: "map_has m k \<longleftrightarrow> k \<in> fst ` set m"
  by (simp add: map_has_def map_of_eq_None_iff)

lemma map_of_snoc:
  "map_of (m @ [(k, v)]) k' =
     (case map_of m k' of None \<Rightarrow> (if k' = k then Some v else None) | Some y \<Rightarrow> Some y)"
  by (induction m) auto

lemma map_of_replace_other:
  "k' \<noteq> k \<Longrightarrow> map_of (map (\<lambda>e. if fst e = k then (k, v) else e) m) k' = map_of m k'"
  by (induction m) auto

lemma map_get_set_new: "\<not> map_has m k \<Longrightarrow> map_get (map_set k v m) k = Some v"
  by (simp add: map_set_def map_get_def map_has_def map_add_def)

lemma map_get_set_other: "k' \<noteq> k \<Longrightarrow> map_get (map_set k v m) k' = map_get m k'"
  by (auto simp: map_set_def map_get_def map_add_def map_of_replace_other split: option.splits)

lemma map_get_delete_same: "map_get (map_delete k m) k = None"
  by (induction m) (auto simp: map_get_def map_delete_def)

lemma map_get_delete_other: "k' \<noteq> k \<Longrightarrow> map_get (map_delete k m) k' = map_get m k'"
  by (induction m) (auto simp: map_get_def map_delete_def)

lemma map_has_delete: "map_has (map_delete k m) k' \<longleftrightarrow> map_has m k' \<and> k' \<noteq> k"
  by (auto simp: map_has_iff map_delete_def)

lemma wf_store_key: "wf_store m \<Longrightarrow> map_has m k \<Longrightarrow> KEY_REGEX_test k"
  by (auto simp: wf_store_def map_has_iff list_all_iff)


lemma wf_store_set:
  "wf_store m \<Longrightarrow> KEY_REGEX_test k \<Longrightarrow> \<not> map_has m k \<Longrightarrow> wf_store (map_set k v m)"
  by (auto simp: wf_store_def map_set_def map_has_iff)

lemma wf_store_delete: "wf_store m \<Longrightarrow> wf_store (map_delete k m)"
  by (auto simp: wf_store_def map_delete_def distinct_map_filter list_all_iff)

lemma wf_store_empty: "wf_store []"
  by (simp add: wf_store_def)

text \<open>
  Claim C7. With an image waiting to be saved and a store whose keys are all valid: saving
  under a key that passes \<open>KEY_REGEX\<close> and is not in the store succeeds, and a lookup of
  the key in the new store returns that image; saving under a key that is in the store
  ends in the \<open>KeyTaken\<close> branch and leaves the store as it was.
\<close>

theorem handleSaveKey_roundtrip:
  assumes "imageToSave s = Some img" and "wf_store (references s)"
  shows "(KEY_REGEX_test k \<and> \<not> map_has (references s) k \<longrightarrow>
            fst (handleSaveKey k s) = Saved \<and>
            map_get (references (snd (handleSaveKey k s))) k = Some img)
       \<and> (map_has (references s) k' \<longrightarrow>
            fst (handleSaveKey k' s) = KeyTaken \<and>
            references (snd (handleSaveKey k' s)) = references s)"
proof (intro conjI impI)
  assume h: "KEY_REGEX_test k \<and> \<not> map_has (references s) k"
  then have t: "trim k = k" and ne: "k \<noteq> []"
    by (simp_all add: trim_key KEY_REGEX_test_def)
  from h assms(1) t ne show "fst (handleSaveKey k s) = Saved"
    by (simp add: handleSaveKey_def)
  from h assms(1) t ne
  show "map_get (references (snd (handleSaveKey k s))) k = Some img"
    by (simp add: handleSaveKey_def closeSaveKeyModal_def addMessage_def map_get_set_new)
next
  assume h: "map_has (references s) k'"
  with assms(2) have v: "KEY_REGEX_test k'" by (rule wf_store_key)
  then have t: "trim k' = k'" and ne: "k' \<noteq> []"
    by (simp_all add: trim_key KEY_REGEX_test_def)
  from h v assms(1) t ne show "fst (handleSaveKey k' s) = KeyTaken"
    by (simp add: handleSaveKey_def)
  from h v assms(1) t ne show "references (snd (handleSaveKey k' s)) = references s"
    by (simp add: handleSaveKey_def)
qed

text \<open>The two cases of C7 on a store that holds \<open>cat\<close>: saving as \<open>dog\<close>, saving as \<open>cat\<close>.\<close>

theorem handleSaveKey_roundtrip_witness:
  "imageToSave state_a = Some img_b \<and> wf_store (references state_a)
   \<and> KEY_REGEX_test ''dog'' \<and> \<not> map_has (references state_a) ''dog''
   \<and> map_has (references state_a) ''cat''
   \<and> fst (handleSaveKey ''dog'' state_a) = Saved
   \<and> map_get (references (snd (handleSaveKey ''dog'' state_a))) ''dog'' = Some img_b
   \<and> fst (handleSaveKey ''cat'' state_a) = KeyTaken
   \<and> references (snd (handleSaveKey ''cat'' state_a)) = [(''cat'', img_a)]"
proof -
  have a: "imageToSave state_a = Some img_b" by (simp add: state_a_def)
  have b: "wf_store (references state_a)"
    by (simp add: state_a_def wf_store_def KEY_REGEX_test_def isWordChar_def)
  have c: "KEY_REGEX_test ''dog'' \<and> \<not> map_has (references state_a) ''dog''"
    by (simp add: state_a_def map_has_def KEY_REGEX_test_def isWordChar_def)
  have d: "map_has (references state_a) ''cat''"
    by (simp add: state_a_def map_has_def)
  have e: "references state_a = [(''cat'', img_a)]" by (simp add: state_a_def)
  from handleSaveKey_roundtrip [OF a b, of "''dog''" "''cat''"] a b c d e
  show ?thesis by simp
qed


text \<open>
  Claim C4. For a store that holds \<open>oldKey\<close>: a rename to a new key (the trimmed content
  of the input field) that fails \<open>KEY_REGEX\<close> or is in the store leaves the whole state
  as it was; a rename to a valid key that is not in the store succeeds, after which the
  new key gives the image \<open>oldKey\<close> gave, \<open>oldKey\<close> gives nothing, and every other key
  gives what it gave before.
\<close>

theorem handleRename_atomic:
  assumes "map_has (references s) oldKey"
  shows "(\<not> KEY_REGEX_test (trim v) \<or> map_has (references s) (trim v) \<longrightarrow>
            (\<exists>out. handleRename oldKey v s = Inr (out, s) \<and> out \<noteq> Renamed))
       \<and> (KEY_REGEX_test (trim v) \<and> \<not> map_has (references s) (trim v) \<longrightarrow>
            (\<exists>s'. handleRename oldKey v s = Inr (Renamed, s')
               \<and> map_get (references s') (trim v) = map_get (references s) oldKey
               \<and> map_get (references s') oldKey = None
               \<and> (\<forall>k. k \<noteq> oldKey \<and> k \<noteq> trim v \<longrightarrow>
                      map_get (references s') k = map_get (references s) k)))"
proof (intro conjI impI)
  assume "\<not> KEY_REGEX_test (trim v) \<or> map_has (references s) (trim v)"
  then show "\<exists>out. handleRename oldKey v s = Inr (out, s) \<and> out \<noteq> Renamed"
    by (auto simp: handleRename_def Let_def)
next
  assume h: "KEY_REGEX_test (trim v) \<and> \<not> map_has (references s) (trim v)"
  with assms have ne: "trim v \<noteq> oldKey" by auto
  from assms obtain img where g: "map_get (references s) oldKey = Some img"
    by (auto simp: map_has_def map_get_def)
  let ?s' = "s\<lparr>references := map_set (trim v) img (map_delete oldKey (references s))\<rparr>"
  have r: "handleRename oldKey v s = Inr (Renamed, ?s')"
    using h ne g by (simp add: handleRename_def Let_def)
  have nh: "\<not> map_has (map_delete oldKey (references s)) (trim v)"
    using h by (simp add: map_has_delete)
  have a: "map_get (references ?s') (trim v) = map_get (references s) oldKey"
    using nh g by (simp add: map_get_set_new)
  have b: "map_get (references ?s') oldKey = None"
    using ne by (simp add: map_get_set_other map_get_delete_same)
  have c: "\<forall>k. k \<noteq> oldKey \<and> k \<noteq> trim v \<longrightarrow>
             map_get (references ?s') k = map_get (references s) k"
    by (simp add: map_get_set_other map_get_delete_other)
  from r a b c
  show "\<exists>s'. handleRename oldKey v s = Inr (Renamed, s')
          \<and> map_get (references s') (trim v) = map_get (references s) oldKey
          \<and> map_get (references s') oldKey = None
          \<and> (\<forall>k. k \<noteq> oldKey \<and> k \<noteq> trim v \<longrightarrow>
                 map_get (references s') k = map_get (references s) k)"
    by blast
qed

text \<open>C4 on a store with \<open>A\<close> and \<open>C\<close>: renaming \<open>A\<close> to the taken key \<open>C\<close>, to the invalid
  key \<open>no good\<close>, and to \<open>B\<close>.\<close>

theorem handleRename_atomic_witness:
  "map_has (references state_b) ''A''
   \<and> map_has (references state_b) (trim ''C'')
   \<and> \<not> KEY_REGEX_test (trim ''no good'')
   \<and> KEY_REGEX_test (trim '' B '') \<and> \<not> map_has (references state_b) (trim '' B '')
   \<and> (\<exists>out. handleRename ''A'' ''C'' state_b = Inr (out, state_b) \<and> out \<noteq> Renamed)
   \<and> (\<exists>out. handleRename ''A'' ''no good'' state_b = Inr (out, state_b) \<and> out \<noteq> Renamed)
   \<and> (\<exists>s'. handleRename ''A'' '' B '' state_b = Inr (Renamed, s')
         \<and> map_get (references s') ''B'' = Some img_a
         \<and> map_get (references s') ''A'' = None
         \<and> map_get (references s') ''C'' = Some img_b)"
proof -
  have a: "map_has (references state_b) ''A''"
    by (simp add: state_b_def map_has_def)
  have t: "trim ''C'' = ''C''" "trim ''no good'' = ''no good''" "trim '' B '' = ''B''"
    by (simp_all add: trim_def isWhiteSpace_def)
  have b1: "map_has (references state_b) (trim ''C'')"
    by (simp add: t state_b_def map_has_def)
  have b2: "\<not> map_has (references state_b) (trim '' B '')"
    by (simp add: t state_b_def map_has_def)
  have c1: "\<not> KEY_REGEX_test (trim ''no good'')"
    by (simp add: t KEY_REGEX_test_def isWordChar_def)
  have c2: "KEY_REGEX_test (trim '' B '')"
    by (simp add: t KEY_REGEX_test_def isWordChar_def)
  have g: "map_get (references state_b) ''A'' = Some img_a"
          "map_get (references state_b) ''C'' = Some img_b"
    by (simp_all add: state_b_def map_get_def)
  have r1: "\<exists>out. handleRename ''A'' ''C'' state_b = Inr (out, state_b) \<and> out \<noteq> Renamed"
    using handleRename_atomic [OF a, of "''C''"] b1 by blast
  have r2: "\<exists>out. handleRename ''A'' ''no good'' state_b = Inr (out, state_b) \<and> out \<noteq> Renamed"
    using handleRename_atomic [OF a, of "''no good''"] c1 by blast
  from handleRename_atomic [OF a, of "'' B ''"] b2 c2
  obtain s' where s': "handleRename ''A'' '' B '' state_b = Inr (Renamed, s')"
      "map_get (references s') (trim '' B '') = map_get (references state_b) ''A''"
      "map_get (references s') ''A'' = None"
      "\<forall>k. k \<noteq> ''A'' \<and> k \<noteq> trim '' B '' \<longrightarrow>
           map_get (references s') k = map_get (references state_b) k"
    by blast
  have s1: "map_get (references s') ''B'' = Some img_a"
    using s'(2) g(1) by (simp add: t)
  have s2: "map_get (references s') ''C'' = Some img_b"
    using s'(4) [rule_format, of "''C''"] g(2) by (simp add: t)
  have r3: "\<exists>s'. handleRename ''A'' '' B '' state_b = Inr (Renamed, s')
         \<and> map_get (references s') ''B'' = Some img_a
         \<and> map_get (references s') ''A'' = None
         \<and> map_get (references s') ''C'' = Some img_b"
    using s'(1) s1 s'(3) s2 by blast
  from a b1 c1 c2 b2 r1 r2 r3 show ?thesis by (intro conjI)
qed

text \<open>The handlers keep the keys of the store valid and distinct.\<close>

lemma handleSaveKey_wf:
  assumes "wf_store (references s)"
  shows "wf_store (references (snd (handleSaveKey v s)))"
proof (cases "imageToSave s")
  case None
  with assms show ?thesis by (simp add: handleSaveKey_def)
next
  case (Some img)
  with assms show ?thesis
    by (simp add: handleSaveKey_def Let_def closeSaveKeyModal_def addMessage_def wf_store_set)
qed

lemma handleRename_wf:
  assumes "wf_store (references s)" and "handleRename oldKey v s = Inr (out, s')"
  shows "wf_store (references s')"
proof (cases "out = Renamed")
  case False
  with assms(2) have "s' = s"
    by (auto simp: handleRename_def Let_def split: if_splits option.splits)
  with assms(1) show ?thesis by simp
next
  case True
  with assms(2) have ok: "KEY_REGEX_test (trim v)" "\<not> map_has (references s) (trim v)"
    by (auto simp: handleRename_def Let_def split: if_splits option.splits)
  from True assms(2) ok obtain img where
    s': "s' = s\<lparr>references := map_set (trim v) img (map_delete oldKey (references s))\<rparr>"
    by (auto simp: handleRename_def Let_def split: if_splits option.splits)
  have "\<not> map_has (map_delete oldKey (references s)) (trim v)"
    using ok by (simp add: map_has_delete)
  with assms(1) ok show ?thesis
    by (simp add: s' wf_store_set wf_store_delete)
qed

lemma handleDelete_wf: "wf_store (references s) \<Longrightarrow> wf_store (references (handleDelete k s))"
  by (simp add: handleDelete_def wf_store_delete)

section \<open>Properties of the resolver\<close>

lemma upt_Suc_shift: "[0..<Suc n] = 0 # map Suc [0..<n]"
  by (simp add: upt_conv_Cons map_Suc_upt del: upt_Suc)

lemma spec_tokens_Nil: "spec_tokens [] = []"
  by (simp add: spec_tokens_def)

lemma spec_tokens_Cons:
  "spec_tokens (c # cs) =
     (if c = CHR ''@'' \<and> takeWhile isWordChar cs \<noteq> [] then [takeWhile isWordChar cs] else [])
       @ spec_tokens cs"
  by (simp add: spec_tokens_def upt_Suc_shift filter_map comp_def spec_token_at_def del: upt_Suc)

lemma at_not_word: "\<not> isWordChar CHR ''@''"
  by (simp add: isWordChar_def)

lemma spec_tokens_word_prefix: "list_all isWordChar w \<Longrightarrow> spec_tokens (w @ r) = spec_tokens r"
  by (induction w) (auto simp: spec_tokens_Cons at_not_word)

lemma spec_tokens_dropWhile: "spec_tokens (dropWhile isWordChar cs) = spec_tokens cs"
proof -
  have "list_all isWordChar (takeWhile isWordChar cs)"
    by (simp add: list_all_iff) (meson set_takeWhileD)
  then have "spec_tokens (takeWhile isWordChar cs @ dropWhile isWordChar cs)
               = spec_tokens (dropWhile isWordChar cs)"
    by (rule spec_tokens_word_prefix)
  then show ?thesis by simp
qed

lemma matchAll_spec_tokens: "matchAll s = spec_tokens s"
  by (induction s rule: matchAll.induct)
     (simp_all add: spec_tokens_Nil spec_tokens_Cons spec_tokens_dropWhile)

lemma set_add_old: "x \<in> set s \<Longrightarrow> set_add x s = s"
  by (simp add: set_add_def)

lemma set_add_new: "x \<notin> set s \<Longrightarrow> set_add x s = s @ [x]"
  by (simp add: set_add_def)

lemma fold_set_add:
  "fold set_add xs acc = acc @ spec_first_occurrences (filter (\<lambda>x. x \<notin> set acc) xs)"
proof (induction xs arbitrary: acc)
  case Nil
  then show ?case by simp
next
  case (Cons x xs)
  show ?case
  proof (cases "x \<in> set acc")
    case True
    then show ?thesis by (simp add: set_add_old Cons.IH)
  next
    case False
    have "filter (\<lambda>y. y \<notin> set (acc @ [x])) xs = filter (\<lambda>y. y \<noteq> x) (filter (\<lambda>y. y \<notin> set acc) xs)"
      by (auto intro: filter_cong)
    with False show ?thesis by (simp add: set_add_new Cons.IH)
  qed
qed

lemma new_Set_first_occurrences: "new_Set xs = spec_first_occurrences xs"
  by (simp add: new_Set_def fold_set_add)

lemma set_first_occurrences: "set (spec_first_occurrences xs) = set xs"
  by (induction xs rule: spec_first_occurrences.induct) auto

lemma distinct_first_occurrences: "distinct (spec_first_occurrences xs)"
  by (induction xs rule: spec_first_occurrences.induct) (auto simp: set_first_occurrences)

lemma fold_push_filter:
  "fold (\<lambda>key missing. if P key then missing @ [key] else missing) xs acc = acc @ filter P xs"
  by (induction xs arbitrary: acc) auto

lemma referencedKeys_eq:
  "fst (parsePromptForReferences refs s) = spec_first_occurrences (spec_tokens s)"
  by (simp add: parsePromptForReferences_def Let_def new_Set_first_occurrences matchAll_spec_tokens)

lemma missingKeys_eq:
  "snd (parsePromptForReferences refs s) =
     filter (\<lambda>k. \<not> map_has refs k) (fst (parsePromptForReferences refs s))"
  by (simp add: parsePromptForReferences_def Let_def fold_push_filter)

lemma set_spec_tokens:
  "set (spec_tokens s) =
     {k. k \<noteq> [] \<and> (\<exists>i<length s. s ! i = CHR ''@'' \<and> k = takeWhile isWordChar (drop (Suc i) s))}"
  by (auto simp: spec_tokens_def spec_token_at_def)

text \<open>
  Claim C5. For every prompt and every store, the referenced keys are the keys of the
  tokens of the prompt (an \<open>@\<close> directly followed by the longest run of one or more word
  characters), each key once, in the order of first occurrence; an \<open>@\<close> that no word
  character follows gives no key; and the missing keys are those referenced keys that
  the store does not hold, in the same order.
\<close>

theorem parsePromptForReferences_tokens:
  "fst (parsePromptForReferences refs s) = spec_first_occurrences (spec_tokens s)
   \<and> distinct (fst (parsePromptForReferences refs s))
   \<and> set (fst (parsePromptForReferences refs s)) =
       {k. k \<noteq> [] \<and> (\<exists>i<length s. s ! i = CHR ''@'' \<and> k = takeWhile isWordChar (drop (Suc i) s))}
   \<and> snd (parsePromptForReferences refs s) =
       filter (\<lambda>k. \<not> map_has refs k) (spec_first_occurrences (spec_tokens s))"
proof -
  have a: "fst (parsePromptForReferences refs s) = spec_first_occurrences (spec_tokens s)"
    by (rule referencedKeys_eq)
  have b: "distinct (fst (parsePromptForReferences refs s))"
    by (simp add: a distinct_first_occurrences)
  have c: "set (fst (parsePromptForReferences refs s)) =
       {k. k \<noteq> [] \<and> (\<exists>i<length s. s ! i = CHR ''@'' \<and> k = takeWhile isWordChar (drop (Suc i) s))}"
    by (simp only: a set_first_occurrences set_spec_tokens)
  have d: "snd (parsePromptForReferences refs s) =
       filter (\<lambda>k. \<not> map_has refs k) (spec_first_occurrences (spec_tokens s))"
    using missingKeys_eq [of refs s] by (simp only: a)
  from a b c d show ?thesis by (intro conjI)
qed

text \<open>C5 on a prompt with a repeated key, an address-like \<open>a@b.c\<close>, a doubled \<open>@\<close> and a lone
  \<open>@\<close>, against a store that holds \<open>x\<close> only.\<close>

theorem parsePromptForReferences_tokens_witness:
  "parsePromptForReferences [(''x'', img_a)] ''mix @x, a@b.c @@z @ @x! @y''
     = ([''x'', ''b'', ''z'', ''y''], [''b'', ''z'', ''y''])"
proof -
  have t: "spec_tokens ''mix @x, a@b.c @@z @ @x! @y'' = [''x'', ''b'', ''z'', ''x'', ''y'']"
    by code_simp
  have f: "spec_first_occurrences [''x'', ''b'', ''z'', ''x'', ''y''] = [''x'', ''b'', ''z'', ''y'']"
    by simp
  have m: "filter (\<lambda>k. \<not> map_has [(''x'', img_a)] k) [''x'', ''b'', ''z'', ''y''] = [''b'', ''z'', ''y'']"
    by (simp add: map_has_def)
  from parsePromptForReferences_tokens [of "[(''x'', img_a)]" "''mix @x, a@b.c @@z @ @x! @y''"]
  have "fst (parsePromptForReferences [(''x'', img_a)] ''mix @x, a@b.c @@z @ @x! @y'')
          = [''x'', ''b'', ''z'', ''y'']"
    and "snd (parsePromptForReferences [(''x'', img_a)] ''mix @x, a@b.c @@z @ @x! @y'')
          = [''b'', ''z'', ''y'']"
    by (simp_all only: t f m)
  then show ?thesis by (simp add: prod_eq_iff)
qed

text \<open>
  Claim C3 does not hold of the code: the first component of the result is the set of all
  referenced keys, not of the keys found in the store, so a missing key is listed in both
  components. With an empty store and the prompt \<open>use @x\<close> the key \<open>x\<close> is in both.
\<close>

theorem parsePromptForReferences_overlap:
  "parsePromptForReferences [] ''use @x'' = ([''x''], [''x''])
   \<and> set (fst (parsePromptForReferences [] ''use @x''))
       \<inter> set (snd (parsePromptForReferences [] ''use @x'')) = {''x''}"
  by (simp add: parsePromptForReferences_def Let_def new_Set_def set_add_def map_has_def isWordChar_def)

section \<open>Properties of the call\<close>

lemma parse_empty: "parsePromptForReferences refs [] = ([], [])"
  by (simp add: parsePromptForReferences_def new_Set_def)

lemma missing_prompt_nonempty: "snd (parsePromptForReferences refs prompt) \<noteq> [] \<Longrightarrow> prompt \<noteq> []"
  by (auto simp: parse_empty)

text \<open>
  Claim C8. When the prompt has a missing key, \<open>callGeminiApi\<close> returns the state it was
  given with one message added to the chat, the error message that lists all the missing
  keys; no request is recorded in \<open>apiCalls\<close>, whatever the model would have answered.
\<close>

theorem callGeminiApi_missing_aborts:
  assumes "snd (parsePromptForReferences (references s) prompt) \<noteq> []"
  shows "callGeminiApi generate prompt img s =
           Inr (s\<lparr>chatHistory := chatHistory s @
                  [\<lparr>msg_sender = Ai,
                    msg_text = ''Error: The following reference keys were not found: ''
                      @ join '', '' (snd (parsePromptForReferences (references s) prompt)) @ ''.'',
                    msg_images = []\<rparr>]\<rparr>)
         \<and> (\<exists>s'. callGeminiApi generate prompt img s = Inr s'
                \<and> length (chatHistory s') = Suc (length (chatHistory s))
                \<and> apiCalls s' = apiCalls s)"
proof -
  from assms have ne: "prompt \<noteq> []" by (rule missing_prompt_nonempty)
  obtain ks ms where p: "parsePromptForReferences (references s) prompt = (ks, ms)"
    by (cases "parsePromptForReferences (references s) prompt")
  with assms have "ms \<noteq> []" by simp
  with ne p show ?thesis
    by (simp add: callGeminiApi_def addMessage_def)
qed

text \<open>C8 on a store that holds \<open>cat\<close> and a prompt that also names \<open>y\<close> and \<open>zz\<close>.\<close>

theorem callGeminiApi_missing_aborts_witness:
  "snd (parsePromptForReferences (references state_a) ''put @cat near @y and @zz'') \<noteq> []
   \<and> callGeminiApi (\<lambda>parts. Inr [TextPart ''never asked'']) ''put @cat near @y and @zz'' None
        state_a =
       Inr (state_a\<lparr>chatHistory :=
              [\<lparr>msg_sender = Ai,
                msg_text = ''Error: The following reference keys were not found: y, zz.'',
                msg_images = []\<rparr>]\<rparr>)"
proof -
  have m: "snd (parsePromptForReferences (references state_a) ''put @cat near @y and @zz'')
             = [''y'', ''zz'']"
    by (simp add: parsePromptForReferences_def Let_def new_Set_def set_add_def map_has_def
        isWordChar_def state_a_def)
  then have h: "snd (parsePromptForReferences (references state_a) ''put @cat near @y and @zz'')
                  \<noteq> []"
    by simp
  have c: "chatHistory state_a = []" by (simp add: state_a_def)
  from callGeminiApi_missing_aborts [OF h, of "\<lambda>parts. Inr [TextPart ''never asked'']" None]
  have "callGeminiApi (\<lambda>parts. Inr [TextPart ''never asked'']) ''put @cat near @y and @zz'' None
          state_a =
        Inr (state_a\<lparr>chatHistory :=
              [\<lparr>msg_sender = Ai,
                msg_text = ''Error: The following reference keys were not found: y, zz.'',
                msg_images = []\<rparr>]\<rparr>)"
    by (simp add: m c)
  with h show ?thesis by (intro conjI)
qed

section \<open>Properties of the assembler\<close>

lemma push_references_resolved:
  "\<forall>k\<in>set keys. map_has refs k \<Longrightarrow>
     push_references refs keys parts =
       Inr (parts @ map (\<lambda>k. InlinePart (index (split CHR '','' (data (the (map_get refs k)))) 1)
                            (mimeType (the (map_get refs k)))) keys)"
proof (induction keys arbitrary: parts)
  case Nil
  then show ?case by simp
next
  case (Cons k keys)
  from Cons.prems obtain ref where r: "map_get refs k = Some ref"
    by (auto simp: map_has_def map_get_def)
  from Cons.prems have "\<forall>k\<in>set keys. map_has refs k" by simp
  from Cons.IH [OF this] r show ?case by simp
qed

lemma buildApiParts_masked:
  assumes "maskData im = Some m" and "m \<noteq> []" and "\<forall>k\<in>set keys. map_has refs k"
  shows "buildApiParts refs prompt (Some im) keys =
           Inr ([TextPart (if prompt \<noteq> [] then prompt else ''Describe this image.''),
                 InlinePart (index (split CHR '','' (data im)) 1) (mimeType im),
                 InlinePart (index (split CHR '','' m) 1) (mimeType im)]
                @ map (\<lambda>k. InlinePart (index (split CHR '','' (data (the (map_get refs k)))) 1)
                              (mimeType (the (map_get refs k)))) keys)"
  using assms(1,2) by (simp add: buildApiParts_def push_references_resolved [OF assms(3)])

lemma no_missing_all_resolved:
  assumes "snd (parsePromptForReferences refs prompt) = []"
  shows "\<forall>k\<in>set (fst (parsePromptForReferences refs prompt)). map_has refs k"
  using assms missingKeys_eq [of refs prompt] by (simp add: filter_empty_conv)

text \<open>
  Claim C1. For a staged image that carries a mask and keys that are all in the store, the
  emitted sequence is the text part (the prompt, or the default instruction when the
  prompt is empty), then the part of the original image, then the part of the mask, then
  one part per key in the order of the keys. For the keys resolved from the prompt
  itself, none of them missing, that order is the order of their first occurrence in
  the prompt.
\<close>

theorem buildApiParts_order:
  assumes "maskData im = Some m" and "m \<noteq> []"
  shows "((\<forall>k\<in>set keys. map_has refs k) \<longrightarrow>
            buildApiParts refs prompt (Some im) keys =
              Inr ([TextPart (if prompt \<noteq> [] then prompt else ''Describe this image.''),
                    InlinePart (index (split CHR '','' (data im)) 1) (mimeType im),
                    InlinePart (index (split CHR '','' m) 1) (mimeType im)]
                   @ map (\<lambda>k. InlinePart (index (split CHR '','' (data (the (map_get refs k)))) 1)
                                 (mimeType (the (map_get refs k)))) keys))
       \<and> (snd (parsePromptForReferences refs prompt) = [] \<longrightarrow>
            buildApiParts refs prompt (Some im) (fst (parsePromptForReferences refs prompt)) =
              Inr ([TextPart (if prompt \<noteq> [] then prompt else ''Describe this image.''),
                    InlinePart (index (split CHR '','' (data im)) 1) (mimeType im),
                    InlinePart (index (split CHR '','' m) 1) (mimeType im)]
                   @ map (\<lambda>k. InlinePart (index (split CHR '','' (data (the (map_get refs k)))) 1)
                                 (mimeType (the (map_get refs k))))
                       (spec_first_occurrences (spec_tokens prompt))))"
proof (intro conjI impI)
  assume "\<forall>k\<in>set keys. map_has refs k"
  from buildApiParts_masked [OF assms this]
  show "buildApiParts refs prompt (Some im) keys =
              Inr ([TextPart (if prompt \<noteq> [] then prompt else ''Describe this image.''),
                    InlinePart (index (split CHR '','' (data im)) 1) (mimeType im),
                    InlinePart (index (split CHR '','' m) 1) (mimeType im)]
                   @ map (\<lambda>k. InlinePart (index (split CHR '','' (data (the (map_get refs k)))) 1)
                                 (mimeType (the (map_get refs k)))) keys)" .
next
  assume "snd (parsePromptForReferences refs prompt) = []"
  then have "\<forall>k\<in>set (fst (parsePromptForReferences refs prompt)). map_has refs k"
    by (rule no_missing_all_resolved)
  from buildApiParts_masked [OF assms this, of prompt]
  show "buildApiParts refs prompt (Some im) (fst (parsePromptForReferences refs prompt)) =
              Inr ([TextPart (if prompt \<noteq> [] then prompt else ''Describe this image.''),
                    InlinePart (index (split CHR '','' (data im)) 1) (mimeType im),
                    InlinePart (index (split CHR '','' m) 1) (mimeType im)]
                   @ map (\<lambda>k. InlinePart (index (split CHR '','' (data (the (map_get refs k)))) 1)
                                 (mimeType (the (map_get refs k))))
                       (spec_first_occurrences (spec_tokens prompt)))"
    by (simp only: referencedKeys_eq)
qed

text \<open>C1 on the prompt \<open>combine @x and @y\<close>, whose keys resolve in the order \<open>x\<close>, \<open>y\<close>, against a
  store that enumerates \<open>y\<close> before \<open>x\<close>.\<close>

theorem buildApiParts_order_witness:
  "maskData staged_a = Some ''data:image/png;base64,MASK''
   \<and> parsePromptForReferences store_xy ''combine @x and @y'' = ([''x'', ''y''], [])
   \<and> buildApiParts store_xy ''combine @x and @y'' (Some staged_a)
        (fst (parsePromptForReferences store_xy ''combine @x and @y'')) =
       Inr [TextPart ''combine @x and @y'',
            InlinePart (Some ''SUBJ'') ''image/png'',
            InlinePart (Some ''MASK'') ''image/png'',
            InlinePart (Some ''AAAA'') ''image/png'',
            InlinePart (Some ''BBBB'') ''image/jpeg'']"
proof -
  have a: "maskData staged_a = Some ''data:image/png;base64,MASK''"
    by (simp add: staged_a_def)
  have b: "''data:image/png;base64,MASK'' \<noteq> []" by simp
  have p: "parsePromptForReferences store_xy ''combine @x and @y'' = ([''x'', ''y''], [])"
    by (simp add: parsePromptForReferences_def Let_def new_Set_def set_add_def isWordChar_def
        store_xy_def map_has_def)
  then have n: "snd (parsePromptForReferences store_xy ''combine @x and @y'') = []" by simp
  have f: "spec_first_occurrences (spec_tokens ''combine @x and @y'') = [''x'', ''y'']"
    using referencedKeys_eq [of store_xy "''combine @x and @y''"] p by simp
  have g: "map_get store_xy ''x'' = Some img_a" "map_get store_xy ''y'' = Some img_b"
    by (simp_all add: store_xy_def map_get_def)
  have d: "data staged_a = ''data:image/png;base64,SUBJ''" "mimeType staged_a = ''image/png''"
    by (simp_all add: staged_a_def)
  have s: "data img_a = ''data:image/png;base64,AAAA''" "data img_b = ''data:image/jpeg;base64,BBBB''"
    by (simp_all add: img_a_def img_b_def)
  have e: "mimeType img_a = ''image/png''" "mimeType img_b = ''image/jpeg''"
    by (simp_all add: img_a_def img_b_def)
  from buildApiParts_order [OF a b, where refs = store_xy and prompt = "''combine @x and @y''"] n
  have "buildApiParts store_xy ''combine @x and @y'' (Some staged_a)
          (fst (parsePromptForReferences store_xy ''combine @x and @y'')) =
       Inr ([TextPart (if ''combine @x and @y'' \<noteq> [] then ''combine @x and @y''
                       else ''Describe this image.''),
                    InlinePart (index (split CHR '','' (data staged_a)) 1) (mimeType staged_a),
                    InlinePart (index (split CHR '','' ''data:image/png;base64,MASK'') 1)
                      (mimeType staged_a)]
                   @ map (\<lambda>k. InlinePart (index (split CHR '','' (data (the (map_get store_xy k)))) 1)
                                 (mimeType (the (map_get store_xy k))))
                       (spec_first_occurrences (spec_tokens ''combine @x and @y'')))"
    by blast
  then have "buildApiParts store_xy ''combine @x and @y'' (Some staged_a)
          (fst (parsePromptForReferences store_xy ''combine @x and @y'')) =
       Inr [TextPart ''combine @x and @y'',
            InlinePart (Some ''SUBJ'') ''image/png'',
            InlinePart (Some ''MASK'') ''image/png'',
            InlinePart (Some ''AAAA'') ''image/png'',
            InlinePart (Some ''BBBB'') ''image/jpeg'']"
    unfolding f by (simp add: g d s e index_def split_def)
  with a p show ?thesis by (intro conjI)
qed

lemma split_from_eq:
  "split_from sep cur s =
     (cur @ takeWhile (\<lambda>c. c \<noteq> sep) s)
       # (case dropWhile (\<lambda>c. c \<noteq> sep) s of [] \<Rightarrow> [] | x # rest \<Rightarrow> split_from sep [] rest)"
  by (induction s arbitrary: cur) auto

lemma split_from_hd: "\<exists>t. split_from sep cur s = (cur @ takeWhile (\<lambda>c. c \<noteq> sep) s) # t"
  by (subst split_from_eq) simp

lemma index_split_1:
  "index (split sep d) 1 =
     (case dropWhile (\<lambda>c. c \<noteq> sep) d of
        [] \<Rightarrow> None
      | x # rest \<Rightarrow> Some (takeWhile (\<lambda>c. c \<noteq> sep) rest))"
proof (cases "dropWhile (\<lambda>c. c \<noteq> sep) d")
  case Nil
  show ?thesis
    unfolding split_def index_def split_from_eq [of sep "[]" d] Nil by simp
next
  case (Cons x rest)
  obtain t where "split_from sep [] rest = takeWhile (\<lambda>c. c \<noteq> sep) rest # t"
    using split_from_hd [of sep "[]" rest] by auto
  then show ?thesis
    unfolding split_def index_def split_from_eq [of sep "[]" d] Cons by simp
qed

lemma count_dropWhile:
  "count_list d sep = count_list (dropWhile (\<lambda>c. c \<noteq> sep) d) sep"
  by (induction d) auto

lemma data_url_payload:
  assumes "spec_is_data_url d"
  shows "index (split CHR '','' d) 1 = spec_payload d"
    and "\<exists>p. spec_payload d = Some p \<and> d = takeWhile (\<lambda>c. c \<noteq> CHR '','') d @ CHR '','' # p"
proof -
  let ?sep = "CHR '',''"
  from assms have c: "count_list (dropWhile (\<lambda>c. c \<noteq> ?sep) d) ?sep = 1"
    using count_dropWhile [of d ?sep] by (simp add: spec_is_data_url_def)
  then obtain x rest where dr: "dropWhile (\<lambda>c. c \<noteq> ?sep) d = x # rest"
    by (cases "dropWhile (\<lambda>c. c \<noteq> ?sep) d") auto
  then have x: "x = ?sep"
    using hd_dropWhile [of "\<lambda>c. c \<noteq> ?sep" d] by auto
  with c dr have "count_list rest ?sep = 0" by simp
  then have "?sep \<notin> set rest" by (simp add: count_list_0_iff)
  then have tw: "takeWhile (\<lambda>c. c \<noteq> ?sep) rest = rest"
    by (auto intro: takeWhile_eq_all_conv [THEN iffD2])
  show "index (split ?sep d) 1 = spec_payload d"
    unfolding index_split_1 spec_payload_def dr by (simp add: tw)
  have "d = takeWhile (\<lambda>c. c \<noteq> ?sep) d @ dropWhile (\<lambda>c. c \<noteq> ?sep) d" by simp
  with dr x have "d = takeWhile (\<lambda>c. c \<noteq> ?sep) d @ ?sep # rest" by simp
  then show "\<exists>p. spec_payload d = Some p \<and> d = takeWhile (\<lambda>c. c \<noteq> ?sep) d @ ?sep # p"
    by (simp add: spec_payload_def dr)
qed


lemma reference_sources:
  "\<forall>k\<in>set keys. map_has refs k \<Longrightarrow>
     concat (map (\<lambda>k. case map_get refs k of
                         None \<Rightarrow> []
                       | Some ref \<Rightarrow> [(data ref, mimeType ref)]) keys) =
     map (\<lambda>k. (data (the (map_get refs k)), mimeType (the (map_get refs k)))) keys"
  by (induction keys) (auto simp: map_has_def map_get_def)

lemma buildApiParts_sources:
  assumes "\<forall>k\<in>set keys. map_has refs k"
  shows "buildApiParts refs prompt img keys =
           Inr ((if prompt \<noteq> [] then [TextPart prompt]
                 else if img \<noteq> None then [TextPart ''Describe this image.''] else [])
                @ map (\<lambda>src. InlinePart (index (split CHR '','' (fst src)) 1) (snd src))
                    (spec_sources refs img keys))"
proof (cases img)
  case None
  then show ?thesis
    by (simp add: buildApiParts_def spec_sources_def push_references_resolved [OF assms]
        reference_sources [OF assms] comp_def)
next
  case (Some im)
  show ?thesis
  proof (cases "maskData im")
    case None
    with Some show ?thesis
      by (simp add: buildApiParts_def spec_sources_def push_references_resolved [OF assms]
          reference_sources [OF assms] comp_def)
  next
    case (Some m)
    with \<open>img = Some im\<close> show ?thesis
      by (simp add: buildApiParts_def spec_sources_def push_references_resolved [OF assms]
          reference_sources [OF assms] comp_def)
  qed
qed

lemma filter_image_parts:
  "filter is_image_part
     (ts @ map (\<lambda>src. InlinePart (f src) (g src)) srcs) =
   filter is_image_part ts @ map (\<lambda>src. InlinePart (f src) (g src)) srcs"
  by (induction srcs) auto

text \<open>
  Claim C9. When the keys are all in the store and every stored string an image part is
  made from is a data URL, the image parts of the request are, in order, one per such
  string: its data is the string with the prefix stripped, that is the payload behind the
  separator and never the whole data URL, and its mime type is the stored mime type as
  it is (for the mask, the mime type of the staged image).
\<close>

theorem buildApiParts_payload:
  assumes "\<forall>k\<in>set keys. map_has refs k"
    and "\<forall>src\<in>set (spec_sources refs img keys). spec_is_data_url (fst src)"
  shows "\<exists>parts. buildApiParts refs prompt img keys = Inr parts
           \<and> filter is_image_part parts =
               map (\<lambda>src. InlinePart (spec_payload (fst src)) (snd src))
                 (spec_sources refs img keys)
           \<and> (\<forall>src\<in>set (spec_sources refs img keys).
                 \<exists>p. spec_payload (fst src) = Some p
                   \<and> fst src = takeWhile (\<lambda>c. c \<noteq> CHR '','') (fst src) @ CHR '','' # p)"
proof -
  let ?srcs = "spec_sources refs img keys"
  let ?text = "if prompt \<noteq> [] then [TextPart prompt]
               else if img \<noteq> None then [TextPart ''Describe this image.''] else []"
  let ?parts = "?text @ map (\<lambda>src. InlinePart (index (split CHR '','' (fst src)) 1) (snd src)) ?srcs"
  have b: "buildApiParts refs prompt img keys = Inr ?parts"
    by (rule buildApiParts_sources [OF assms(1)])
  have "map (\<lambda>src. InlinePart (index (split CHR '','' (fst src)) 1) (snd src)) ?srcs =
        map (\<lambda>src. InlinePart (spec_payload (fst src)) (snd src)) ?srcs"
    using assms(2) by (auto simp: data_url_payload(1) [unfolded One_nat_def])
  moreover have "filter is_image_part ?text = []" by simp
  ultimately have f: "filter is_image_part ?parts =
      map (\<lambda>src. InlinePart (spec_payload (fst src)) (snd src)) ?srcs"
    by (simp only: filter_image_parts append_Nil)
  have p: "\<forall>src\<in>set ?srcs. \<exists>p. spec_payload (fst src) = Some p
              \<and> fst src = takeWhile (\<lambda>c. c \<noteq> CHR '','') (fst src) @ CHR '','' # p"
    using assms(2) data_url_payload(2) by blast
  from b f p show ?thesis by blast
qed


text \<open>C9 on a staged image with a mask and two references.\<close>

theorem buildApiParts_payload_witness:
  "map_has store_xy ''x'' \<and> map_has store_xy ''y''
   \<and> spec_sources store_xy (Some staged_a) [''x'', ''y''] =
       [(''data:image/png;base64,SUBJ'', ''image/png''),
        (''data:image/png;base64,MASK'', ''image/png''),
        (''data:image/png;base64,AAAA'', ''image/png''),
        (''data:image/jpeg;base64,BBBB'', ''image/jpeg'')]
   \<and> spec_is_data_url ''data:image/png;base64,SUBJ''
   \<and> spec_is_data_url ''data:image/png;base64,MASK''
   \<and> spec_is_data_url ''data:image/png;base64,AAAA''
   \<and> spec_is_data_url ''data:image/jpeg;base64,BBBB''
   \<and> (\<exists>parts. buildApiParts store_xy ''combine @x and @y'' (Some staged_a) [''x'', ''y'']
                  = Inr parts
          \<and> filter is_image_part parts =
              [InlinePart (Some ''SUBJ'') ''image/png'',
               InlinePart (Some ''MASK'') ''image/png'',
               InlinePart (Some ''AAAA'') ''image/png'',
               InlinePart (Some ''BBBB'') ''image/jpeg''])"
proof -
  have h: "map_has store_xy ''x''" "map_has store_xy ''y''"
    by (simp_all add: store_xy_def map_has_def)
  then have k: "\<forall>k\<in>set [''x'', ''y'']. map_has store_xy k" by simp
  have src: "spec_sources store_xy (Some staged_a) [''x'', ''y''] =
       [(''data:image/png;base64,SUBJ'', ''image/png''),
        (''data:image/png;base64,MASK'', ''image/png''),
        (''data:image/png;base64,AAAA'', ''image/png''),
        (''data:image/jpeg;base64,BBBB'', ''image/jpeg'')]"
    by (simp add: spec_sources_def staged_a_def store_xy_def map_get_def img_a_def img_b_def)
  have u: "spec_is_data_url ''data:image/png;base64,SUBJ''"
          "spec_is_data_url ''data:image/png;base64,MASK''"
          "spec_is_data_url ''data:image/png;base64,AAAA''"
          "spec_is_data_url ''data:image/jpeg;base64,BBBB''"
    by (simp_all add: spec_is_data_url_def)
  have pl: "spec_payload ''data:image/png;base64,SUBJ'' = Some ''SUBJ''"
           "spec_payload ''data:image/png;base64,MASK'' = Some ''MASK''"
           "spec_payload ''data:image/png;base64,AAAA'' = Some ''AAAA''"
           "spec_payload ''data:image/jpeg;base64,BBBB'' = Some ''BBBB''"
    by (simp_all add: spec_payload_def)
  have a: "\<forall>src\<in>set (spec_sources store_xy (Some staged_a) [''x'', ''y'']).
             spec_is_data_url (fst src)"
    unfolding src using u by simp
  from buildApiParts_payload [OF k a, of "''combine @x and @y''"]
  obtain parts where
    b: "buildApiParts store_xy ''combine @x and @y'' (Some staged_a) [''x'', ''y''] = Inr parts"
    and f: "filter is_image_part parts =
              map (\<lambda>src. InlinePart (spec_payload (fst src)) (snd src))
                (spec_sources store_xy (Some staged_a) [''x'', ''y''])"
    by blast
  from f have "filter is_image_part parts =
              [InlinePart (Some ''SUBJ'') ''image/png'',
               InlinePart (Some ''MASK'') ''image/png'',
               InlinePart (Some ''AAAA'') ''image/png'',
               InlinePart (Some ''BBBB'') ''image/jpeg'']"
    unfolding src by (simp add: pl)
  with b have e: "\<exists>parts. buildApiParts store_xy ''combine @x and @y'' (Some staged_a) [''x'', ''y'']
                  = Inr parts
          \<and> filter is_image_part parts =
              [InlinePart (Some ''SUBJ'') ''image/png'',
               InlinePart (Some ''MASK'') ''image/png'',
               InlinePart (Some ''AAAA'') ''image/png'',
               InlinePart (Some ''BBBB'') ''image/jpeg'']"
    by blast
  from h src u e show ?thesis by (intro conjI)
qed

section \<open>Properties of the mask editor\<close>

lemma putByte_length [simp]: "length (putByte a i v) = length a"
  by (simp add: putByte_def)

lemma putByte_nth: "j < length a \<Longrightarrow> putByte a i v ! j = (if j = i then v else a ! j)"
  by (simp add: putByte_def)

lemma maskLoop_length: "length (maskLoop orig cur msk i) = length msk"
proof (induction orig cur msk i rule: maskLoop.induct)
  case (1 orig cur msk i)
  show ?case
  proof (cases "i < length orig")
    case True
    then show ?thesis
      by (subst maskLoop.simps) (simp add: "1.IH")
  next
    case False
    then show ?thesis by (subst maskLoop.simps) simp
  qed
qed

lemma maskLoop_nth:
  "\<lbrakk>length msk = length orig; 4 dvd i; 4 dvd length orig; j < length msk\<rbrakk> \<Longrightarrow>
     maskLoop orig cur msk i ! j =
       (if j < i then msk ! j
        else if j mod 4 = 3 then 255
        else if hasChanged orig cur (4 * (j div 4)) then 255 else 0)"
proof (induction orig cur msk i rule: maskLoop.induct)
  case (1 orig cur msk i)
  show ?case
  proof (cases "i < length orig")
    case False
    with "1.prems" show ?thesis by (subst maskLoop.simps) simp
  next
    case True
    let ?m = "if hasChanged orig cur i then
                putByte (putByte (putByte (putByte msk i 255) (i + 1) 255) (i + 2) 255) (i + 3) 255
              else
                putByte (putByte (putByte (putByte msk i 0) (i + 1) 0) (i + 2) 0) (i + 3) 255"
    have unf: "maskLoop orig cur msk i = maskLoop orig cur ?m (i + 4)"
      using True by (subst maskLoop.simps) simp
    have len: "length ?m = length orig" using "1.prems" by simp
    have dv: "4 dvd (i + 4)" using "1.prems" by simp
    have jl: "j < length ?m" using "1.prems" by simp
    note ih = "1.IH" [OF True len dv "1.prems"(3) jl]
    show ?thesis
    proof (cases "j < i")
      case True
      with "1.prems" show ?thesis
        unfolding unf ih by (simp add: putByte_nth)
    next
      case False
      note ji = this
      show ?thesis
      proof (cases "j < i + 4")
        case False
        with ji show ?thesis unfolding unf ih by simp
      next
        case True
        with ji "1.prems"(2) have d: "4 * (j div 4) = i" by (auto simp: dvd_def)
        from True ji have c: "j = i \<or> j = i + 1 \<or> j = i + 2 \<or> j = i + 3" by arith
        have m: "i mod 4 = 0" using "1.prems"(2) by auto
        have mk: "(i + k) mod 4 = k mod 4" for k
          using m by (metis add_0 mod_add_left_eq)
        have nth: "?m ! j = (if j mod 4 = 3 then 255 else if hasChanged orig cur i then 255 else 0)"
        proof -
          consider "j = i" | "j = i + 1" | "j = i + 2" | "j = i + 3" using c by blast
          then show ?thesis
          proof cases
            case 1
            with "1.prems"(1,4) m show ?thesis by (simp add: putByte_nth)
          next
            case 2
            with "1.prems"(1,4) mk [of 1] show ?thesis by (simp add: putByte_nth)
          next
            case 3
            with "1.prems"(1,4) mk [of 2] show ?thesis by (simp add: putByte_nth)
          next
            case 4
            with "1.prems"(1,4) mk [of 3] show ?thesis by (simp add: putByte_nth)
          qed
        qed
        show ?thesis
          unfolding unf ih using True ji nth d by simp
      qed
    qed
  qed
qed

lemma take4_drop:
  "n + 4 \<le> length a \<Longrightarrow> take 4 (drop n a) = [a ! n, a ! (n + 1), a ! (n + 2), a ! (n + 3)]"
  by (rule nth_equalityI) (auto simp: nth_Cons' less_Suc_eq numeral_eq_Suc)

lemma hasChanged_pixel:
  assumes "4 * p + 4 \<le> length a" and "4 * p + 4 \<le> length b"
  shows "hasChanged a b (4 * p) \<longleftrightarrow> spec_pixel a p \<noteq> spec_pixel b p"
  using assms
  by (simp add: hasChanged_def getByte_def spec_pixel_def take4_drop)

lemma maskLoop_pixel:
  assumes len: "length msk = length orig" "length cur = length orig" "length orig = 4 * n"
    and p: "p < n"
  shows "spec_pixel (maskLoop orig cur msk 0) p =
           (if spec_pixel orig p \<noteq> spec_pixel cur p then spec_white else spec_black)"
proof -
  let ?r = "maskLoop orig cur msk 0"
  have lr: "length ?r = 4 * n" using len by (simp add: maskLoop_length)
  have b: "4 * p + 4 \<le> 4 * n" using p by simp
  have dv: "4 dvd length orig" using len by simp
  have nth: "?r ! j =
       (if j mod 4 = 3 then 255 else if hasChanged orig cur (4 * (j div 4)) then 255 else 0)"
    if "j < 4 * n" for j
    using maskLoop_nth [of msk orig 0 j cur] len dv that by simp
  have d: "(4 * p + 1) div 4 = p" "(4 * p + 2) div 4 = p" "(4 * p + 3) div 4 = p"
    by presburger+
  have m: "(4 * p + 1) mod 4 = 1" "(4 * p + 2) mod 4 = 2" "(4 * p + 3) mod 4 = 3"
    by presburger+
  have hc: "hasChanged orig cur (4 * p) \<longleftrightarrow> spec_pixel orig p \<noteq> spec_pixel cur p"
    using b len by (intro hasChanged_pixel) simp_all
  have px: "spec_pixel ?r p = [?r ! (4 * p), ?r ! (4 * p + 1), ?r ! (4 * p + 2), ?r ! (4 * p + 3)]"
    unfolding spec_pixel_def using b lr by (intro take4_drop) simp
  have n0: "?r ! (4 * p) = (if hasChanged orig cur (4 * p) then 255 else 0)"
    using nth [of "4 * p"] b by simp
  have n1: "?r ! (4 * p + 1) = (if hasChanged orig cur (4 * p) then 255 else 0)"
    using nth [of "4 * p + 1"] b d m by simp
  have n2: "?r ! (4 * p + 2) = (if hasChanged orig cur (4 * p) then 255 else 0)"
    using nth [of "4 * p + 2"] b d m by simp
  have n3: "?r ! (4 * p + 3) = 255"
    using nth [of "4 * p + 3"] b d m by simp
  show ?thesis
    unfolding px n0 n1 n2 n3 hc by (simp add: spec_white_def spec_black_def)
qed

lemma maskImageData_wf:
  assumes "wf_image (canvas ed)"
  shows "maskImageData ed =
           Inr \<lparr>width = width (canvas ed), height = height (canvas ed),
                data_bytes =
                  maskLoop (data_bytes (canvasHistory ed ! 0)) (data_bytes (canvas ed))
                    (replicate (4 * width (canvas ed) * height (canvas ed)) 0) 0\<rparr>"
  using assms
  by (simp add: maskImageData_def getImageData_def createImageData_def wf_image_def)

text \<open>
  Claim C2. With an image staged, a history that is not empty, and a first snapshot of the
  size of the surface: \<open>saveMask\<close> encodes a mask bitmap that has the dimensions of the
  surface and in which every pixel is opaque white when any of its four channels differs
  between the first snapshot and the current surface, and opaque black otherwise; when
  the surface equals the first snapshot every pixel is opaque black.
\<close>

theorem saveMask_mask:
  assumes "stagedImage s = Some im" and "canvasHistory ed \<noteq> []" and "wf_image (canvas ed)"
    and "length (data_bytes (canvasHistory ed ! 0)) = length (data_bytes (canvas ed))"
  shows "\<exists>m. maskImageData ed = Inr m
           \<and> saveMask toDataURL s ed =
               Inr (s\<lparr>stagedImage :=
                        Some (im\<lparr>maskData := Some (toDataURL m (mimeType im)),
                                 maskPreviewData := Some (toDataURL (canvas ed) (mimeType im))\<rparr>)\<rparr>,
                    closeEditor ed)
           \<and> width m = width (canvas ed) \<and> height m = height (canvas ed)
           \<and> length (data_bytes m) = 4 * width (canvas ed) * height (canvas ed)
           \<and> (\<forall>p < width (canvas ed) * height (canvas ed).
                 spec_pixel (data_bytes m) p =
                   (if spec_pixel (data_bytes (canvasHistory ed ! 0)) p
                         \<noteq> spec_pixel (data_bytes (canvas ed)) p
                    then spec_white else spec_black))
           \<and> (data_bytes (canvasHistory ed ! 0) = data_bytes (canvas ed) \<longrightarrow>
                 (\<forall>p < width (canvas ed) * height (canvas ed).
                    spec_pixel (data_bytes m) p = spec_black))"
proof -
  let ?w = "width (canvas ed)" and ?h = "height (canvas ed)"
  let ?orig = "data_bytes (canvasHistory ed ! 0)" and ?cur = "data_bytes (canvas ed)"
  let ?px = "maskLoop ?orig ?cur (replicate (4 * ?w * ?h) 0) 0"
  let ?m = "\<lparr>width = ?w, height = ?h, data_bytes = ?px\<rparr>"
  have lc: "length ?cur = 4 * (?w * ?h)" using assms(3) by (simp add: wf_image_def)
  have lo: "length ?orig = 4 * (?w * ?h)" using assms(4) lc by simp
  have m: "maskImageData ed = Inr ?m" by (rule maskImageData_wf [OF assms(3)])
  have sv: "saveMask toDataURL s ed =
               Inr (s\<lparr>stagedImage :=
                        Some (im\<lparr>maskData := Some (toDataURL ?m (mimeType im)),
                                 maskPreviewData := Some (toDataURL (canvas ed) (mimeType im))\<rparr>)\<rparr>,
                    closeEditor ed)"
    using assms(1,2) by (simp add: saveMask_def m)
  have ln: "length (data_bytes ?m) = 4 * ?w * ?h" by (simp add: maskLoop_length)
  have px: "\<forall>p < ?w * ?h. spec_pixel (data_bytes ?m) p =
              (if spec_pixel ?orig p \<noteq> spec_pixel ?cur p then spec_white else spec_black)"
  proof (intro allI impI)
    fix p assume "p < ?w * ?h"
    then have "spec_pixel ?px p =
                 (if spec_pixel ?orig p \<noteq> spec_pixel ?cur p then spec_white else spec_black)"
      using lo lc by (intro maskLoop_pixel [where n = "?w * ?h"]) simp_all
    then show "spec_pixel (data_bytes ?m) p =
                 (if spec_pixel ?orig p \<noteq> spec_pixel ?cur p then spec_white else spec_black)"
      by simp
  qed
  have bl: "?orig = ?cur \<longrightarrow> (\<forall>p < ?w * ?h. spec_pixel (data_bytes ?m) p = spec_black)"
  proof (intro impI allI)
    fix p assume e: "?orig = ?cur" and "p < ?w * ?h"
    with px have "spec_pixel (data_bytes ?m) p =
              (if spec_pixel ?orig p \<noteq> spec_pixel ?cur p then spec_white else spec_black)"
      by blast
    then show "spec_pixel (data_bytes ?m) p = spec_black" by (simp only: e) simp
  qed
  have wd: "width ?m = ?w" and ht: "height ?m = ?h" by simp_all
  from m sv wd ht ln px bl show ?thesis by blast
qed


text \<open>C2 on a surface of two pixels whose second pixel was painted.\<close>

theorem saveMask_mask_witness:
  "stagedImage state_staged = Some staged_plain \<and> canvasHistory editor_drawn \<noteq> []
   \<and> wf_image (canvas editor_drawn)
   \<and> length (data_bytes (canvasHistory editor_drawn ! 0)) = length (data_bytes (canvas editor_drawn))
   \<and> (\<exists>m. maskImageData editor_drawn = Inr m
         \<and> width m = 2 \<and> height m = 1 \<and> length (data_bytes m) = 8
         \<and> spec_pixel (data_bytes m) 0 = [0, 0, 0, 255]
         \<and> spec_pixel (data_bytes m) 1 = [255, 255, 255, 255])"
proof -
  have a: "stagedImage state_staged = Some staged_plain" by (simp add: state_staged_def)
  have b: "canvasHistory editor_drawn \<noteq> []" by (simp add: editor_drawn_def)
  have c: "wf_image (canvas editor_drawn)"
    by (simp add: editor_drawn_def drawn_2x1_def wf_image_def)
  have d: "length (data_bytes (canvasHistory editor_drawn ! 0))
             = length (data_bytes (canvas editor_drawn))"
    by (simp add: editor_drawn_def drawn_2x1_def pristine_2x1_def)
  have wh: "width (canvas editor_drawn) = 2" "height (canvas editor_drawn) = 1"
    by (simp_all add: editor_drawn_def drawn_2x1_def)
  have p0: "spec_pixel (data_bytes (canvasHistory editor_drawn ! 0)) 0
              = spec_pixel (data_bytes (canvas editor_drawn)) 0"
    by (simp add: editor_drawn_def drawn_2x1_def pristine_2x1_def spec_pixel_def)
  have p1: "spec_pixel (data_bytes (canvasHistory editor_drawn ! 0)) 1
              \<noteq> spec_pixel (data_bytes (canvas editor_drawn)) 1"
    by (simp add: editor_drawn_def drawn_2x1_def pristine_2x1_def spec_pixel_def)
  from saveMask_mask [OF a b c d]
  obtain m where m: "maskImageData editor_drawn = Inr m"
    and w: "width m = width (canvas editor_drawn)" and h: "height m = height (canvas editor_drawn)"
    and l: "length (data_bytes m) = 4 * width (canvas editor_drawn) * height (canvas editor_drawn)"
    and px: "\<forall>p < width (canvas editor_drawn) * height (canvas editor_drawn).
                 spec_pixel (data_bytes m) p =
                   (if spec_pixel (data_bytes (canvasHistory editor_drawn ! 0)) p
                         \<noteq> spec_pixel (data_bytes (canvas editor_drawn)) p
                    then spec_white else spec_black)"
    by blast
  have q0: "spec_pixel (data_bytes m) 0 = [0, 0, 0, 255]"
    using px [rule_format, of 0] p0 by (simp add: wh spec_black_def)
  have q1: "spec_pixel (data_bytes m) 1 = [255, 255, 255, 255]"
    using px [rule_format, of 1] p1 by (simp add: wh spec_white_def)
  have e: "\<exists>m. maskImageData editor_drawn = Inr m
         \<and> width m = 2 \<and> height m = 1 \<and> length (data_bytes m) = 8
         \<and> spec_pixel (data_bytes m) 0 = [0, 0, 0, 255]
         \<and> spec_pixel (data_bytes m) 1 = [255, 255, 255, 255]"
    using m w h l q0 q1 by (simp add: wh)
  from a b c d e show ?thesis by (intro conjI)
qed

lemma putImageData_same_size:
  assumes "width img = width c" and "height img = height c"
    and "length (data_bytes img) = 4 * width c * height c"
    and "length (data_bytes c) = 4 * width c * height c"
  shows "putImageData img c = c\<lparr>data_bytes := data_bytes img\<rparr>"
proof -
  let ?W = "width c" and ?H = "height c"
  have "map (\<lambda>j. let x = (j div 4) mod ?W; y = (j div 4) div ?W
                  in if x < width img \<and> y < height img
                     then data_bytes img ! (4 * (y * width img + x) + j mod 4)
                     else data_bytes c ! j)
           [0..<length (data_bytes c)] = data_bytes img"
  proof (rule nth_equalityI)
    show "length (map (\<lambda>j. let x = (j div 4) mod ?W; y = (j div 4) div ?W
                  in if x < width img \<and> y < height img
                     then data_bytes img ! (4 * (y * width img + x) + j mod 4)
                     else data_bytes c ! j)
           [0..<length (data_bytes c)]) = length (data_bytes img)"
      using assms by simp
  next
    fix j
    assume "j < length (map (\<lambda>j. let x = (j div 4) mod ?W; y = (j div 4) div ?W
                  in if x < width img \<and> y < height img
                     then data_bytes img ! (4 * (y * width img + x) + j mod 4)
                     else data_bytes c ! j)
           [0..<length (data_bytes c)])"
    then have j: "j < 4 * ?W * ?H" using assms(4) by simp
    then have wpos: "0 < ?W" by (cases "?W = 0") auto
    have q: "j div 4 < ?W * ?H" using j by (simp add: less_mult_imp_div_less mult.commute mult.assoc)
    have x: "(j div 4) mod ?W < ?W" using wpos by simp
    have y: "(j div 4) div ?W < ?H" using q by (simp add: less_mult_imp_div_less mult.commute)
    have e1: "(j div 4) div ?W * ?W + (j div 4) mod ?W = j div 4" by simp
    have e2: "4 * (j div 4) + j mod 4 = j" by simp
    show "map (\<lambda>j. let x = (j div 4) mod ?W; y = (j div 4) div ?W
                  in if x < width img \<and> y < height img
                     then data_bytes img ! (4 * (y * width img + x) + j mod 4)
                     else data_bytes c ! j)
           [0..<length (data_bytes c)] ! j = data_bytes img ! j"
      using j assms x y e1 e2 by (simp add: Let_def)
  qed
  then show ?thesis by (simp add: putImageData_def)
qed

subsection \<open>Sessions and undo\<close>

lemma same_size_self: "wf_image bitmap \<Longrightarrow> same_size bitmap bitmap"
  by (simp add: same_size_def wf_image_def)

lemma same_size_paint: "same_size bitmap c \<Longrightarrow> same_size bitmap (apply_paint p c)"
  by (simp add: same_size_def apply_paint_def)

lemma same_size_put: "same_size bitmap c \<Longrightarrow> same_size bitmap (putImageData img c)"
  by (simp add: same_size_def putImageData_def)

lemma putImageData_snapshot:
  assumes "same_size bitmap img" and "same_size bitmap c"
  shows "putImageData img c = img"
proof -
  have "putImageData img c = c\<lparr>data_bytes := data_bytes img\<rparr>"
    using assms by (intro putImageData_same_size) (simp_all add: same_size_def)
  also have "\<dots> = img" using assms by (simp add: same_size_def)
  finally show ?thesis .
qed

lemma getImageData_ok:
  "wf_image bitmap \<Longrightarrow> same_size bitmap c \<Longrightarrow> getImageData c = Inr c"
  by (simp add: getImageData_def same_size_def wf_image_def)

lemma saveCanvasState_ok:
  "wf_image bitmap \<Longrightarrow> same_size bitmap (canvas ed) \<Longrightarrow>
     saveCanvasState ed = Inr (ed\<lparr>canvasHistory := canvasHistory ed @ [canvas ed]\<rparr>)"
  by (simp add: saveCanvasState_def getImageData_ok)

lemma openEditor_ok:
  assumes "wf_image (decode (data im))"
  shows "openEditor (Some im) decode ed0 =
           Inr (ed0\<lparr>canvas := decode (data im), canvasHistory := [decode (data im)]\<rparr>)"
  using assms
  by (simp add: openEditor_def saveCanvasState_def getImageData_def wf_image_def)

lemma session_inv_open:
  "wf_image bitmap \<Longrightarrow>
     session_inv bitmap (ed0\<lparr>canvas := bitmap, canvasHistory := [bitmap]\<rparr>)"
  by (simp add: session_inv_def same_size_self)

lemma restoreLast_ok:
  assumes "session_inv bitmap ed"
  shows "restoreLast ed = Inr (ed\<lparr>canvas := last (canvasHistory ed)\<rparr>)"
proof -
  from assms have ne: "canvasHistory ed \<noteq> []" by (simp add: session_inv_def)
  then have i: "index (canvasHistory ed) (length (canvasHistory ed) - 1)
                  = Some (last (canvasHistory ed))"
    by (simp add: index_def last_conv_nth)
  from assms ne have "same_size bitmap (last (canvasHistory ed))"
    by (simp add: session_inv_def list_all_iff)
  moreover from assms have "same_size bitmap (canvas ed)" by (simp add: session_inv_def)
  ultimately have "putImageData (last (canvasHistory ed)) (canvas ed) = last (canvasHistory ed)"
    by (rule putImageData_snapshot)
  with i show ?thesis by (simp add: restoreLast_def)
qed

lemma session_inv_canvas:
  "session_inv bitmap ed \<Longrightarrow> same_size bitmap c \<Longrightarrow> session_inv bitmap (ed\<lparr>canvas := c\<rparr>)"
  by (simp add: session_inv_def)

lemma session_inv_push:
  "session_inv bitmap ed \<Longrightarrow>
     session_inv bitmap (ed\<lparr>canvasHistory := canvasHistory ed @ [canvas ed]\<rparr>)"
  by (simp add: session_inv_def nth_append)

lemma session_inv_flags:
  "session_inv bitmap (ed\<lparr>isDrawing := b\<rparr>) = session_inv bitmap ed"
  "session_inv bitmap (ed\<lparr>currentTool := t\<rparr>) = session_inv bitmap ed"
  by (simp_all add: session_inv_def)

lemma session_inv_last:
  "session_inv bitmap ed \<Longrightarrow> same_size bitmap (last (canvasHistory ed))"
  by (simp add: session_inv_def list_all_iff)

lemma handleUndo_pop:
  assumes "session_inv bitmap ed" and "1 < length (canvasHistory ed)"
  shows "handleUndo ed =
           ed\<lparr>canvasHistory := butlast (canvasHistory ed),
              canvas := last (butlast (canvasHistory ed))\<rparr>"
proof -
  let ?h = "butlast (canvasHistory ed)"
  from assms(2) have ne: "?h \<noteq> []" by (cases "canvasHistory ed") (auto split: if_splits)
  then have l: "?h ! (length ?h - 1) = last ?h" by (simp add: last_conv_nth)
  from assms(1) have "list_all (same_size bitmap) ?h"
    by (auto simp: session_inv_def list_all_iff dest: in_set_butlastD)
  with ne have "same_size bitmap (last ?h)" by (simp add: list_all_iff)
  moreover from assms(1) have "same_size bitmap (canvas ed)" by (simp add: session_inv_def)
  ultimately have "putImageData (last ?h) (canvas ed) = last ?h"
    by (rule putImageData_snapshot)
  with assms(2) l show ?thesis by (simp add: handleUndo_def Let_def)
qed

lemma handleUndo_noop: "length (canvasHistory ed) \<le> 1 \<Longrightarrow> handleUndo ed = ed"
  by (simp add: handleUndo_def)

lemma session_inv_undo:
  assumes "session_inv bitmap ed"
  shows "session_inv bitmap (handleUndo ed)"
proof (cases "1 < length (canvasHistory ed)")
  case False
  then show ?thesis using assms by (simp add: handleUndo_noop)
next
  case True
  let ?h = "butlast (canvasHistory ed)"
  from True have ne: "?h \<noteq> []" by (cases "canvasHistory ed") (auto split: if_splits)
  from assms have all: "list_all (same_size bitmap) ?h"
    by (auto simp: session_inv_def list_all_iff dest: in_set_butlastD)
  with ne have sl: "same_size bitmap (last ?h)" by (simp add: list_all_iff)
  from True have "?h ! 0 = canvasHistory ed ! 0" by (simp add: nth_butlast)
  with assms have z: "?h ! 0 = bitmap" by (simp add: session_inv_def)
  show ?thesis
    unfolding handleUndo_pop [OF assms True]
    using ne z sl all by (simp add: session_inv_def)
qed

lemma draw_ok:
  assumes "session_inv bitmap ed"
  shows "\<exists>ed'. draw p ed = Inr ed' \<and> session_inv bitmap ed'"
proof -
  from assms have c: "same_size bitmap (canvas ed)" by (simp add: session_inv_def)
  have a: "session_inv bitmap (ed\<lparr>canvas := apply_paint p (canvas ed)\<rparr>)"
    using assms c by (intro session_inv_canvas same_size_paint)
  have b: "session_inv bitmap
             (ed\<lparr>canvas := apply_paint p (last (canvasHistory ed))\<rparr>)"
    using assms by (intro session_inv_canvas same_size_paint session_inv_last)
  show ?thesis
    using assms a b restoreLast_ok [OF assms] by (auto simp: draw_def)
qed

lemma stopDraw_ok:
  assumes "wf_image bitmap" and "session_inv bitmap ed"
  shows "\<exists>ed'. stopDraw p ed = Inr ed' \<and> session_inv bitmap ed'"
proof (cases "isDrawing ed")
  case False
  with assms show ?thesis by (simp add: stopDraw_def)
next
  case True
  let ?ed1 = "ed\<lparr>isDrawing := False\<rparr>"
  have i1: "session_inv bitmap ?ed1" using assms(2) by (simp add: session_inv_flags)
  show ?thesis
  proof (cases "currentTool ed = Rectangle \<or> currentTool ed = Circle")
    case False
    from i1 have c: "same_size bitmap (canvas ?ed1)" by (simp add: session_inv_def)
    have "stopDraw p ed = Inr (?ed1\<lparr>canvasHistory := canvasHistory ?ed1 @ [canvas ?ed1]\<rparr>)"
      using True False saveCanvasState_ok [OF assms(1) c] by (simp add: stopDraw_def)
    moreover have "session_inv bitmap (?ed1\<lparr>canvasHistory := canvasHistory ?ed1 @ [canvas ?ed1]\<rparr>)"
      by (rule session_inv_push [OF i1])
    ultimately show ?thesis by blast
  next
    case shape: True
    let ?ed3 = "?ed1\<lparr>canvas := apply_paint p (last (canvasHistory ?ed1))\<rparr>"
    have i3: "session_inv bitmap ?ed3"
      using i1 by (intro session_inv_canvas same_size_paint session_inv_last)
    then have c: "same_size bitmap (canvas ?ed3)" by (simp add: session_inv_def)
    have "stopDraw p ed = Inr (?ed3\<lparr>canvasHistory := canvasHistory ?ed3 @ [canvas ?ed3]\<rparr>)"
      using True shape restoreLast_ok [OF i1] saveCanvasState_ok [OF assms(1) c]
      by (simp add: stopDraw_def)
    moreover have "session_inv bitmap (?ed3\<lparr>canvasHistory := canvasHistory ?ed3 @ [canvas ?ed3]\<rparr>)"
      by (rule session_inv_push [OF i3])
    ultimately show ?thesis by blast
  qed
qed

lemma step_ok:
  assumes "wf_image bitmap" and "session_inv bitmap ed"
  shows "\<exists>ed'. step ev ed = Inr ed' \<and> session_inv bitmap ed'"
proof (cases ev)
  case MouseDown
  with assms(2) show ?thesis by (simp add: startDraw_def session_inv_flags)
next
  case (MouseMove p)
  with draw_ok [OF assms(2)] show ?thesis by simp
next
  case (MouseUp p)
  with stopDraw_ok [OF assms] show ?thesis by simp
next
  case UndoClick
  with session_inv_undo [OF assms(2)] show ?thesis by simp
next
  case (SelectTool t)
  with assms(2) show ?thesis by (simp add: session_inv_flags)
next
  case SelectColor
  with assms(2) show ?thesis by (simp add: session_inv_flags)
qed

lemma reachable_inv: "reachable bitmap ed \<Longrightarrow> wf_image bitmap \<and> session_inv bitmap ed"
proof (induction rule: reachable.induct)
  case (opened decode im ed0 ed)
  then show ?case by (auto simp: openEditor_ok session_inv_open)
next
  case (stepped bitmap ed ev ed')
  with step_ok [of bitmap ed ev] show ?case by auto
qed

lemma undo_iterate:
  assumes "session_inv bitmap ed"
  shows "session_inv bitmap ((handleUndo ^^ n) ed)
         \<and> canvasHistory ((handleUndo ^^ n) ed) =
             take (max 1 (length (canvasHistory ed) - n)) (canvasHistory ed)"
proof (induction n)
  case 0
  then show ?case using assms by simp
next
  case (Suc n)
  let ?e = "(handleUndo ^^ n) ed" and ?L = "length (canvasHistory ed)"
  from Suc have inv: "session_inv bitmap ?e"
    and h: "canvasHistory ?e = take (max 1 (?L - n)) (canvasHistory ed)" by simp_all
  from assms have L: "1 \<le> ?L" by (cases "canvasHistory ed") (simp_all add: session_inv_def)
  from h L have len: "length (canvasHistory ?e) = max 1 (?L - n)" by simp
  have i: "session_inv bitmap ((handleUndo ^^ Suc n) ed)"
    using session_inv_undo [OF inv] by simp
  have "canvasHistory (handleUndo ?e) = take (max 1 (?L - Suc n)) (canvasHistory ed)"
  proof (cases "1 < ?L - n")
    case True
    then have "1 < length (canvasHistory ?e)" using len by simp
    from handleUndo_pop [OF inv this]
    have "canvasHistory (handleUndo ?e) = butlast (canvasHistory ?e)" by simp
    also have "\<dots> = take (?L - n - 1) (canvasHistory ed)"
      using True h by (simp add: butlast_take)
    also have "?L - n - 1 = max 1 (?L - Suc n)" using True by simp
    finally show ?thesis .
  next
    case False
    then have "length (canvasHistory ?e) \<le> 1" using len by simp
    then have "handleUndo ?e = ?e" by (rule handleUndo_noop)
    moreover have "max 1 (?L - Suc n) = max 1 (?L - n)" using False by simp
    ultimately show ?thesis using h by simp
  qed
  with i show ?case by simp
qed

lemma undo_canvas:
  assumes inv: "session_inv bitmap ed" and L: "1 < length (canvasHistory ed)"
  shows "length (canvasHistory ed) - 1 \<le> n \<Longrightarrow> canvas ((handleUndo ^^ n) ed) = bitmap"
proof (induction n)
  case 0
  with L show ?case by simp
next
  case (Suc n)
  let ?e = "(handleUndo ^^ n) ed" and ?L = "length (canvasHistory ed)"
  from undo_iterate [OF inv, of n] have ie: "session_inv bitmap ?e"
    and h: "canvasHistory ?e = take (max 1 (?L - n)) (canvasHistory ed)" by simp_all
  show ?case
  proof (cases "?L - 1 \<le> n")
    case True
    with Suc.IH have c: "canvas ?e = bitmap" by simp
    from True h L have "length (canvasHistory ?e) \<le> 1" by simp
    then have "handleUndo ?e = ?e" by (rule handleUndo_noop)
    with c show ?thesis by simp
  next
    case False
    with Suc.prems have n: "Suc n = ?L - 1" by simp
    then have m: "max 1 (?L - n) = 2" using L by simp
    from h m L have len: "length (canvasHistory ?e) = 2" by simp
    then have gt: "1 < length (canvasHistory ?e)" by simp
    from len obtain a b where ab: "canvasHistory ?e = [a, b]"
      by (cases "canvasHistory ?e"; cases "tl (canvasHistory ?e)") auto
    from ie have "canvasHistory ?e ! 0 = bitmap" by (simp add: session_inv_def)
    with ab have "a = bitmap" by simp
    with handleUndo_pop [OF ie gt] ab have "canvas (handleUndo ?e) = bitmap" by simp
    then show ?thesis by simp
  qed
qed

text \<open>Between strokes the surface shows the last snapshot.\<close>

lemma stopDraw_idle:
  assumes "wf_image bitmap" and "session_inv bitmap ed" and "stopDraw p ed = Inr ed'"
    and "\<not> isDrawing ed \<longrightarrow> canvas ed = last (canvasHistory ed)"
  shows "\<not> isDrawing ed' \<and> canvas ed' = last (canvasHistory ed')"
proof (cases "isDrawing ed")
  case False
  with assms(3,4) show ?thesis by (simp add: stopDraw_def)
next
  case True
  let ?ed1 = "ed\<lparr>isDrawing := False\<rparr>"
  have i1: "session_inv bitmap ?ed1" using assms(2) by (simp add: session_inv_flags)
  show ?thesis
  proof (cases "currentTool ed = Rectangle \<or> currentTool ed = Circle")
    case False
    from i1 have c: "same_size bitmap (canvas ?ed1)" by (simp add: session_inv_def)
    have "stopDraw p ed = Inr (?ed1\<lparr>canvasHistory := canvasHistory ?ed1 @ [canvas ?ed1]\<rparr>)"
      using True False saveCanvasState_ok [OF assms(1) c] by (simp add: stopDraw_def)
    with assms(3) show ?thesis by auto
  next
    case shape: True
    let ?ed3 = "?ed1\<lparr>canvas := apply_paint p (last (canvasHistory ?ed1))\<rparr>"
    have i3: "session_inv bitmap ?ed3"
      using i1 by (intro session_inv_canvas same_size_paint session_inv_last)
    then have c: "same_size bitmap (canvas ?ed3)" by (simp add: session_inv_def)
    have "stopDraw p ed = Inr (?ed3\<lparr>canvasHistory := canvasHistory ?ed3 @ [canvas ?ed3]\<rparr>)"
      using True shape restoreLast_ok [OF i1] saveCanvasState_ok [OF assms(1) c]
      by (simp add: stopDraw_def)
    with assms(3) show ?thesis by auto
  qed
qed

lemma handleUndo_idle:
  assumes "session_inv bitmap ed"
    and "\<not> isDrawing ed \<longrightarrow> canvas ed = last (canvasHistory ed)"
  shows "\<not> isDrawing (handleUndo ed) \<longrightarrow>
           canvas (handleUndo ed) = last (canvasHistory (handleUndo ed))"
proof (cases "1 < length (canvasHistory ed)")
  case True
  show ?thesis unfolding handleUndo_pop [OF assms(1) True] by simp
next
  case False
  then have "handleUndo ed = ed" by (simp add: handleUndo_noop)
  with assms(2) show ?thesis by simp
qed

lemma reachable_idle:
  "reachable bitmap ed \<Longrightarrow> \<not> isDrawing ed \<longrightarrow> canvas ed = last (canvasHistory ed)"
proof (induction rule: reachable.induct)
  case (opened decode im ed0 ed)
  then show ?case by (auto simp: openEditor_ok)
next
  case (stepped bitmap ed ev ed')
  from reachable_inv [OF stepped.hyps(1)]
  have wf: "wf_image bitmap" and inv: "session_inv bitmap ed" by simp_all
  show ?case
  proof (cases ev)
    case MouseDown
    with stepped.hyps(2) show ?thesis by (auto simp: startDraw_def)
  next
    case (MouseMove p)
    with stepped.hyps(2) stepped.IH restoreLast_ok [OF inv] show ?thesis
      by (auto simp: draw_def split: if_splits)
  next
    case (MouseUp p)
    with stepped.hyps(2) have "stopDraw p ed = Inr ed'" by simp
    from stopDraw_idle [OF wf inv this stepped.IH] show ?thesis by simp
  next
    case UndoClick
    with stepped.hyps(2) handleUndo_idle [OF inv stepped.IH] show ?thesis by auto
  next
    case (SelectTool t)
    with stepped.hyps(2) stepped.IH show ?thesis by auto
  next
    case SelectColor
    with stepped.hyps(2) stepped.IH show ?thesis by auto
  qed
qed

text \<open>
  Claim C6, as amended. In every state a session reaches, the history holds at least one snapshot and
  its first snapshot is the bitmap the session was opened on. Any number of undos leaves
  at least that snapshot; as many undos as there are later snapshots, or more, leave
  exactly that snapshot; with one snapshot left an undo changes nothing; and the surface
  then equals the bitmap, whenever there was a later snapshot to discard or no stroke was
  in progress.
\<close>

theorem handleUndo_bounds:
  assumes "reachable bitmap ed"
  shows "canvasHistory ed \<noteq> [] \<and> canvasHistory ed ! 0 = bitmap
       \<and> (\<forall>n. 1 \<le> length (canvasHistory ((handleUndo ^^ n) ed))
              \<and> canvasHistory ((handleUndo ^^ n) ed) ! 0 = bitmap)
       \<and> (\<forall>n. length (canvasHistory ed) - 1 \<le> n \<longrightarrow>
              canvasHistory ((handleUndo ^^ n) ed) = [bitmap])
       \<and> (length (canvasHistory ed) = 1 \<longrightarrow> (\<forall>n. (handleUndo ^^ n) ed = ed))
       \<and> (1 < length (canvasHistory ed) \<or> \<not> isDrawing ed \<longrightarrow>
            (\<forall>n. length (canvasHistory ed) - 1 \<le> n \<longrightarrow>
               canvas ((handleUndo ^^ n) ed) = bitmap))"
proof -
  from reachable_inv [OF assms] have inv: "session_inv bitmap ed" by simp
  then have a: "canvasHistory ed \<noteq> []" and b: "canvasHistory ed ! 0 = bitmap"
    by (simp_all add: session_inv_def)
  have c: "\<forall>n. 1 \<le> length (canvasHistory ((handleUndo ^^ n) ed))
              \<and> canvasHistory ((handleUndo ^^ n) ed) ! 0 = bitmap"
  proof
    fix n
    from undo_iterate [OF inv, of n] have "session_inv bitmap ((handleUndo ^^ n) ed)" by simp
    then show "1 \<le> length (canvasHistory ((handleUndo ^^ n) ed))
              \<and> canvasHistory ((handleUndo ^^ n) ed) ! 0 = bitmap"
      by (cases "canvasHistory ((handleUndo ^^ n) ed)") (simp_all add: session_inv_def)
  qed
  have d: "\<forall>n. length (canvasHistory ed) - 1 \<le> n \<longrightarrow>
              canvasHistory ((handleUndo ^^ n) ed) = [bitmap]"
  proof (intro allI impI)
    fix n assume "length (canvasHistory ed) - 1 \<le> n"
    then have "max 1 (length (canvasHistory ed) - n) = 1" by simp
    with undo_iterate [OF inv, of n]
    have "canvasHistory ((handleUndo ^^ n) ed) = take 1 (canvasHistory ed)" by simp
    also have "\<dots> = [bitmap]" using a b by (cases "canvasHistory ed") simp_all
    finally show "canvasHistory ((handleUndo ^^ n) ed) = [bitmap]" .
  qed
  have e: "length (canvasHistory ed) = 1 \<longrightarrow> (\<forall>n. (handleUndo ^^ n) ed = ed)"
  proof (intro impI allI)
    fix n assume "length (canvasHistory ed) = 1"
    then have "handleUndo ed = ed" by (simp add: handleUndo_noop)
    then show "(handleUndo ^^ n) ed = ed" by (induction n) simp_all
  qed
  have f: "1 < length (canvasHistory ed) \<or> \<not> isDrawing ed \<longrightarrow>
            (\<forall>n. length (canvasHistory ed) - 1 \<le> n \<longrightarrow>
               canvas ((handleUndo ^^ n) ed) = bitmap)"
  proof (intro impI allI)
    fix n
    assume h: "1 < length (canvasHistory ed) \<or> \<not> isDrawing ed"
      and n: "length (canvasHistory ed) - 1 \<le> n"
    show "canvas ((handleUndo ^^ n) ed) = bitmap"
    proof (cases "1 < length (canvasHistory ed)")
      case True
      from undo_canvas [OF inv True n] show ?thesis .
    next
      case False
      with a have l: "length (canvasHistory ed) = 1"
        by (cases "canvasHistory ed") simp_all
      with e have u: "(handleUndo ^^ n) ed = ed" by blast
      from False h have "\<not> isDrawing ed" by blast
      with reachable_idle [OF assms] have "canvas ed = last (canvasHistory ed)" by blast
      also have "\<dots> = bitmap" using l b by (cases "canvasHistory ed") simp_all
      finally show ?thesis using u by simp
    qed
  qed
  from a b c d e f show ?thesis by (intro conjI)
qed

lemma paint_drawn: "apply_paint paint_second pristine_2x1 = drawn_2x1"
  by (simp add: apply_paint_def pristine_2x1_def drawn_2x1_def paint_second_def upt_rec)

lemma reach_midstroke: "reachable pristine_2x1 editor_midstroke"
proof -
  let ?decode = "\<lambda>url :: string. pristine_2x1"
  have wf: "wf_image (?decode (data staged_plain))"
    by (simp add: wf_image_def pristine_2x1_def)
  let ?e1 = "editor_closed\<lparr>canvas := pristine_2x1, canvasHistory := [pristine_2x1]\<rparr>"
  have o: "openEditor (Some staged_plain) ?decode editor_closed = Inr ?e1"
    using openEditor_ok [of ?decode staged_plain editor_closed] wf by simp
  have r1: "reachable pristine_2x1 ?e1"
    using reachable.opened [of ?decode staged_plain editor_closed ?e1] wf o by simp
  let ?e2 = "?e1\<lparr>isDrawing := True\<rparr>"
  have r2: "reachable pristine_2x1 ?e2"
    by (rule reachable.stepped [OF r1, of MouseDown]) (simp add: startDraw_def)
  have s3: "step (MouseMove paint_second) ?e2 = Inr editor_midstroke"
    by (simp add: draw_def editor_closed_def paint_drawn editor_midstroke_def)
  show ?thesis by (rule reachable.stepped [OF r2 s3])
qed

lemma reach_drawn: "reachable pristine_2x1 editor_drawn"
proof -
  have "step (MouseUp paint_second) editor_midstroke = Inr editor_drawn"
    by (simp add: stopDraw_def editor_midstroke_def saveCanvasState_def getImageData_def
        editor_drawn_def drawn_2x1_def)
  with reach_midstroke show ?thesis by (rule reachable.stepped)
qed


text \<open>C6 on the session that opens a bitmap of two pixels and paints one stroke: three
  undos, one more than there are strokes.\<close>

theorem handleUndo_bounds_witness:
  "reachable pristine_2x1 editor_drawn
   \<and> length (canvasHistory editor_drawn) = 2
   \<and> canvasHistory editor_drawn ! 0 = pristine_2x1
   \<and> canvasHistory ((handleUndo ^^ 3) editor_drawn) = [pristine_2x1]
   \<and> canvas ((handleUndo ^^ 3) editor_drawn) = pristine_2x1"
proof -
  have l: "length (canvasHistory editor_drawn) = 2" by (simp add: editor_drawn_def)
  note b = handleUndo_bounds [OF reach_drawn]
  from b have z: "canvasHistory editor_drawn ! 0 = pristine_2x1" by blast
  from b have "length (canvasHistory editor_drawn) - 1 \<le> 3 \<longrightarrow>
                 canvasHistory ((handleUndo ^^ 3) editor_drawn) = [pristine_2x1]"
    by blast
  with l have h: "canvasHistory ((handleUndo ^^ 3) editor_drawn) = [pristine_2x1]" by simp
  from b have "1 < length (canvasHistory editor_drawn) \<or> \<not> isDrawing editor_drawn \<longrightarrow>
                 (length (canvasHistory editor_drawn) - 1 \<le> 3 \<longrightarrow>
                    canvas ((handleUndo ^^ 3) editor_drawn) = pristine_2x1)"
    by blast
  with l have c: "canvas ((handleUndo ^^ 3) editor_drawn) = pristine_2x1" by simp
  from reach_drawn l z h c show ?thesis by (intro conjI)
qed

text \<open>
  Claim C6 as stated also covers a state with one snapshot and a stroke in progress: there
  the surface does not show the bitmap and undo leaves it so. After opening a bitmap of
  two pixels, pressing the pointer and moving the brush over the second pixel, two undos
  change nothing and the surface still shows the painted pixel.
\<close>

theorem handleUndo_midstroke_counterexample:
  "reachable pristine_2x1 editor_midstroke
   \<and> canvasHistory editor_midstroke = [pristine_2x1]
   \<and> handleUndo editor_midstroke = editor_midstroke
   \<and> (handleUndo ^^ 2) editor_midstroke = editor_midstroke
   \<and> data_bytes (canvas ((handleUndo ^^ 2) editor_midstroke)) = [10, 20, 30, 255, 229, 57, 53, 255]
   \<and> data_bytes pristine_2x1 = [10, 20, 30, 255, 40, 50, 60, 255]
   \<and> canvas ((handleUndo ^^ 2) editor_midstroke) \<noteq> pristine_2x1"
proof -
  have h: "canvasHistory editor_midstroke = [pristine_2x1]"
    by (simp add: editor_midstroke_def)
  have u: "handleUndo editor_midstroke = editor_midstroke"
    by (simp add: handleUndo_def h)
  then have u2: "(handleUndo ^^ 2) editor_midstroke = editor_midstroke"
    by (simp add: numeral_2_eq_2)
  have c: "data_bytes (canvas editor_midstroke) = [10, 20, 30, 255, 229, 57, 53, 255]"
    by (simp add: editor_midstroke_def drawn_2x1_def)
  have p: "data_bytes pristine_2x1 = [10, 20, 30, 255, 40, 50, 60, 255]"
    by (simp add: pristine_2x1_def)
  have n: "canvas editor_midstroke \<noteq> pristine_2x1"
  proof
    assume "canvas editor_midstroke = pristine_2x1"
    then have "data_bytes (canvas editor_midstroke) = data_bytes pristine_2x1" by simp
    with c p show False by simp
  qed
  from reach_midstroke h u u2 c p n show ?thesis by (simp only: u2) simp
qed

text \<open>Every state of a session meets what the theorem on \<open>saveMask\<close> asks of the editor.\<close>

lemma reachable_saveMask_ready:
  assumes "reachable bitmap ed"
  shows "canvasHistory ed \<noteq> [] \<and> wf_image (canvas ed)
         \<and> length (data_bytes (canvasHistory ed ! 0)) = length (data_bytes (canvas ed))"
proof -
  from reachable_inv [OF assms] have wf: "wf_image bitmap" and inv: "session_inv bitmap ed"
    by simp_all
  from inv have c: "same_size bitmap (canvas ed)" and z: "canvasHistory ed ! 0 = bitmap"
    and ne: "canvasHistory ed \<noteq> []"
    by (simp_all add: session_inv_def)
  from wf c have "wf_image (canvas ed)" by (simp add: wf_image_def same_size_def)
  moreover from wf c z have "length (data_bytes (canvasHistory ed ! 0)) = length (data_bytes (canvas ed))"
    by (simp add: wf_image_def same_size_def)
  ultimately show ?thesis using ne by simp
qed

text \<open>No event of a session raises an error.\<close>

lemma reachable_step_total: "reachable bitmap ed \<Longrightarrow> \<exists>ed'. step ev ed = Inr ed'"
  using reachable_inv [of bitmap ed] step_ok [of bitmap ed ev] by blast

section \<open>Properties of the enumeration order\<close>

lemma fold_items:
  "fold (\<lambda>e items. items @ [f e]) refs acc = acc @ map f refs"
  by (induction refs arbitrary: acc) auto

lemma fold_grid:
  "fold (\<lambda>e grid. if P e then grid @ [f e] else grid) refs acc = acc @ map f (filter P refs)"
  by (induction refs arbitrary: acc) auto

lemma populateReferencesModal_items:
  "refs \<noteq> [] \<Longrightarrow>
     populateReferencesModal refs = ReferenceItems (map (\<lambda>e. (fst e, data (snd e))) refs)"
  by (simp add: populateReferencesModal_def fold_items)

lemma populateReferencePicker_items:
  "populateReferencePicker flt refs =
     map (\<lambda>e. (fst e, data (snd e)))
       (filter (\<lambda>e. includes_str (toLowerCase (fst e)) (toLowerCase flt)) refs)"
  by (simp add: populateReferencePicker_def Let_def fold_grid)

lemma buildApiParts_no_image:
  assumes "\<forall>k\<in>set keys. map_has refs k"
  shows "buildApiParts refs prompt None keys =
           Inr ((if prompt \<noteq> [] then [TextPart prompt] else [])
                @ map (\<lambda>k. InlinePart (index (split CHR '','' (data (the (map_get refs k)))) 1)
                              (mimeType (the (map_get refs k)))) keys)"
  by (simp add: buildApiParts_def push_references_resolved [OF assms])


text \<open>
  Claim C10, as amended. After a successful rename the entries of the store, in
  enumeration order, are the old entries without the one of \<open>oldKey\<close>, in their old order
  and with their old values, followed by the entry of the new key, which is therefore the
  last one. The references dialog lists the items in that order and the picker filters
  them in that order. The reference parts of a request are not emitted in that order:
  they follow the order of the keys the request is built for.
\<close>

theorem handleRename_order:
  assumes "handleRename oldKey v s = Inr (Renamed, s')"
  shows "\<exists>img. map_get (references s) oldKey = Some img
           \<and> references s' = filter (\<lambda>e. fst e \<noteq> oldKey) (references s) @ [(trim v, img)]
           \<and> populateReferencesModal (references s') =
               ReferenceItems
                 (map (\<lambda>e. (fst e, data (snd e))) (filter (\<lambda>e. fst e \<noteq> oldKey) (references s))
                  @ [(trim v, data img)])
           \<and> populateReferencePicker flt (references s') =
               populateReferencePicker flt (filter (\<lambda>e. fst e \<noteq> oldKey) (references s))
               @ (if includes_str (toLowerCase (trim v)) (toLowerCase flt)
                  then [(trim v, data img)] else [])
           \<and> ((\<forall>k\<in>set keys. map_has (references s') k) \<longrightarrow>
                 buildApiParts (references s') prompt None keys =
                   Inr ((if prompt \<noteq> [] then [TextPart prompt] else [])
                        @ map (\<lambda>k. InlinePart
                                      (index (split CHR '','' (data (the (map_get (references s') k)))) 1)
                                      (mimeType (the (map_get (references s') k)))) keys))"
proof -
  from assms have ne: "trim v \<noteq> oldKey"
    and ok: "KEY_REGEX_test (trim v)" "\<not> map_has (references s) (trim v)"
    by (auto simp: handleRename_def Let_def split: if_splits option.splits)
  from assms ne ok obtain img where g: "map_get (references s) oldKey = Some img"
    and s': "s' = s\<lparr>references := map_set (trim v) img (map_delete oldKey (references s))\<rparr>"
    by (auto simp: handleRename_def Let_def split: option.splits)
  have "\<not> map_has (map_delete oldKey (references s)) (trim v)"
    using ok by (simp add: map_has_delete)
  then have "references s' = map_delete oldKey (references s) @ [(trim v, img)]"
    by (simp add: s' map_set_def)
  then have r: "references s' = filter (\<lambda>e. fst e \<noteq> oldKey) (references s) @ [(trim v, img)]"
    by (simp add: map_delete_def)
  then have nn: "references s' \<noteq> []" by simp
  have l: "populateReferencesModal (references s') =
               ReferenceItems
                 (map (\<lambda>e. (fst e, data (snd e))) (filter (\<lambda>e. fst e \<noteq> oldKey) (references s))
                  @ [(trim v, data img)])"
    unfolding populateReferencesModal_items [OF nn] by (simp add: r)
  have f: "populateReferencePicker flt (references s') =
               populateReferencePicker flt (filter (\<lambda>e. fst e \<noteq> oldKey) (references s))
               @ (if includes_str (toLowerCase (trim v)) (toLowerCase flt)
                  then [(trim v, data img)] else [])"
    by (simp add: populateReferencePicker_items r)
  have e: "(\<forall>k\<in>set keys. map_has (references s') k) \<longrightarrow>
                 buildApiParts (references s') prompt None keys =
                   Inr ((if prompt \<noteq> [] then [TextPart prompt] else [])
                        @ map (\<lambda>k. InlinePart
                                      (index (split CHR '','' (data (the (map_get (references s') k)))) 1)
                                      (mimeType (the (map_get (references s') k)))) keys)"
    using buildApiParts_no_image [of keys "references s'" prompt] by blast
  from g r l f e show ?thesis by blast
qed

text \<open>C10 on a store with \<open>x\<close>, \<open>y\<close>, \<open>z\<close>: renaming the first key moves its entry to the end of
  the store, of the dialog and of the picker.\<close>

theorem handleRename_order_witness:
  "handleRename ''x'' ''w'' state_c =
     Inr (Renamed, state_c\<lparr>references := [(''y'', img_b), (''z'', img_a), (''w'', img_a)]\<rparr>)
   \<and> references state_c = [(''x'', img_a), (''y'', img_b), (''z'', img_a)]
   \<and> populateReferencesModal [(''y'', img_b), (''z'', img_a), (''w'', img_a)] =
       ReferenceItems [(''y'', ''data:image/jpeg;base64,BBBB''),
                       (''z'', ''data:image/png;base64,AAAA''),
                       (''w'', ''data:image/png;base64,AAAA'')]
   \<and> populateReferencePicker ''W'' [(''y'', img_b), (''z'', img_a), (''w'', img_a)] =
       [(''w'', ''data:image/png;base64,AAAA'')]
   \<and> map_has [(''y'', img_b), (''z'', img_a), (''w'', img_a)] ''w''
   \<and> map_has [(''y'', img_b), (''z'', img_a), (''w'', img_a)] ''y''
   \<and> buildApiParts [(''y'', img_b), (''z'', img_a), (''w'', img_a)] ''put @w near @y'' None
        [''w'', ''y''] =
       Inr [TextPart ''put @w near @y'',
            InlinePart (Some ''AAAA'') ''image/png'',
            InlinePart (Some ''BBBB'') ''image/jpeg'']"
proof -
  let ?m = "[(''y'', img_b), (''z'', img_a), (''w'', img_a)]"
  let ?s' = "state_c\<lparr>references := ?m\<rparr>"
  have t: "trim ''w'' = ''w''" by (simp add: trim_def isWhiteSpace_def)
  have k: "KEY_REGEX_test ''w''" by (simp add: KEY_REGEX_test_def isWordChar_def)
  have c: "references state_c = [(''x'', img_a), (''y'', img_b), (''z'', img_a)]"
    by (simp add: state_c_def)
  have r: "handleRename ''x'' ''w'' state_c = Inr (Renamed, ?s')"
    by (simp add: handleRename_def t k state_c_def map_has_def
        map_get_def map_set_def map_delete_def)
  have g: "map_get (references state_c) ''x'' = Some img_a"
    by (simp add: c map_get_def)
  have fl: "filter (\<lambda>e. fst e \<noteq> ''x'') (references state_c) = [(''y'', img_b), (''z'', img_a)]"
    by (simp add: c)
  have lc: "toLowerCase ''W'' = ''w''" "toLowerCase ''w'' = ''w''"
    by code_simp+
  have pk: "populateReferencePicker ''W'' [(''y'', img_b), (''z'', img_a)] = []"
    by (simp add: populateReferencePicker_def lc)
       (simp add: toLowerCase_def toLowerCaseChar_def)
  have d: "data img_a = ''data:image/png;base64,AAAA''" "data img_b = ''data:image/jpeg;base64,BBBB''"
    by (simp_all add: img_a_def img_b_def)
  have mm: "mimeType img_a = ''image/png''" "mimeType img_b = ''image/jpeg''"
    by (simp_all add: img_a_def img_b_def)
  have h: "map_has ?m ''w''" "map_has ?m ''y''" by (simp_all add: map_has_def)
  have gg: "map_get ?m ''w'' = Some img_a" "map_get ?m ''y'' = Some img_b"
    by (simp_all add: map_get_def)
  from handleRename_order [OF r, where flt = "''W''" and keys = "[''w'', ''y'']"
      and prompt = "''put @w near @y''"]
  obtain img where i: "map_get (references state_c) ''x'' = Some img"
    and l: "populateReferencesModal (references ?s') =
               ReferenceItems
                 (map (\<lambda>e. (fst e, data (snd e))) (filter (\<lambda>e. fst e \<noteq> ''x'') (references state_c))
                  @ [(trim ''w'', data img)])"
    and f: "populateReferencePicker ''W'' (references ?s') =
               populateReferencePicker ''W'' (filter (\<lambda>e. fst e \<noteq> ''x'') (references state_c))
               @ (if includes_str (toLowerCase (trim ''w'')) (toLowerCase ''W'')
                  then [(trim ''w'', data img)] else [])"
    and e: "(\<forall>k\<in>set [''w'', ''y'']. map_has (references ?s') k) \<longrightarrow>
              buildApiParts (references ?s') ''put @w near @y'' None [''w'', ''y''] =
                Inr ((if ''put @w near @y'' \<noteq> [] then [TextPart ''put @w near @y''] else [])
                     @ map (\<lambda>k. InlinePart
                                   (index (split CHR '','' (data (the (map_get (references ?s') k)))) 1)
                                   (mimeType (the (map_get (references ?s') k)))) [''w'', ''y''])"
    by blast
  from i g have ia: "img = img_a" by simp
  have l': "populateReferencesModal ?m =
       ReferenceItems [(''y'', ''data:image/jpeg;base64,BBBB''),
                       (''z'', ''data:image/png;base64,AAAA''),
                       (''w'', ''data:image/png;base64,AAAA'')]"
    using l by (simp add: fl ia t d)
  have f': "populateReferencePicker ''W'' ?m = [(''w'', ''data:image/png;base64,AAAA'')]"
    using f by (simp add: fl ia t d lc pk)
  have "\<forall>k\<in>set [''w'', ''y'']. map_has (references ?s') k" using h by simp
  with e have "buildApiParts (references ?s') ''put @w near @y'' None [''w'', ''y''] =
                Inr ((if ''put @w near @y'' \<noteq> [] then [TextPart ''put @w near @y''] else [])
                     @ map (\<lambda>k. InlinePart
                                   (index (split CHR '','' (data (the (map_get (references ?s') k)))) 1)
                                   (mimeType (the (map_get (references ?s') k)))) [''w'', ''y''])"
    by blast
  then have b: "buildApiParts ?m ''put @w near @y'' None [''w'', ''y''] =
       Inr [TextPart ''put @w near @y'',
            InlinePart (Some ''AAAA'') ''image/png'',
            InlinePart (Some ''BBBB'') ''image/jpeg'']"
    by (simp add: gg d mm index_def split_def)
  from r c l' f' h b show ?thesis by (intro conjI)
qed

text \<open>
  Claim C10 as stated takes the enumeration order of the store for the order in which
  reference parts are emitted. After the same rename the store enumerates \<open>y\<close>, \<open>z\<close>, \<open>w\<close>,
  and the request for the prompt \<open>put @w near @y\<close> carries the image of \<open>w\<close> before the
  image of \<open>y\<close>.
\<close>

theorem handleRename_emission_counterexample:
  "handleRename ''x'' ''w'' state_c =
     Inr (Renamed, state_c\<lparr>references := [(''y'', img_b), (''z'', img_a), (''w'', img_a)]\<rparr>)
   \<and> map fst [(''y'', img_b), (''z'', img_a), (''w'', img_a)] = [''y'', ''z'', ''w'']
   \<and> parsePromptForReferences [(''y'', img_b), (''z'', img_a), (''w'', img_a)] ''put @w near @y''
       = ([''w'', ''y''], [])
   \<and> buildApiParts [(''y'', img_b), (''z'', img_a), (''w'', img_a)] ''put @w near @y'' None
        [''w'', ''y''] =
       Inr [TextPart ''put @w near @y'',
            InlinePart (Some ''AAAA'') ''image/png'',
            InlinePart (Some ''BBBB'') ''image/jpeg'']"
proof -
  have t: "trim ''w'' = ''w''" by (simp add: trim_def isWhiteSpace_def)
  have k: "KEY_REGEX_test ''w''" by (simp add: KEY_REGEX_test_def isWordChar_def)
  have r: "handleRename ''x'' ''w'' state_c =
     Inr (Renamed, state_c\<lparr>references := [(''y'', img_b), (''z'', img_a), (''w'', img_a)]\<rparr>)"
    by (simp add: handleRename_def t k state_c_def map_has_def
        map_get_def map_set_def map_delete_def)
  have m: "map fst [(''y'', img_b), (''z'', img_a), (''w'', img_a)] = [''y'', ''z'', ''w'']"
    by simp
  have p: "parsePromptForReferences [(''y'', img_b), (''z'', img_a), (''w'', img_a)]
             ''put @w near @y'' = ([''w'', ''y''], [])"
    by (simp add: parsePromptForReferences_def Let_def new_Set_def set_add_def isWordChar_def
        map_has_def)
  have b: "buildApiParts [(''y'', img_b), (''z'', img_a), (''w'', img_a)] ''put @w near @y'' None
        [''w'', ''y''] =
       Inr [TextPart ''put @w near @y'',
            InlinePart (Some ''AAAA'') ''image/png'',
            InlinePart (Some ''BBBB'') ''image/jpeg'']"
    by (simp add: buildApiParts_def map_get_def index_def split_def img_a_def img_b_def)
  from r m p b show ?thesis by (intro conjI)
qed

end
